theory Spec2Isabelle
  imports Complex_Main "HOL-Library.Multiset"
begin

section \<open>JavaScript values used by the layout code\<close>

text \<open>
  The only exception the layout code can raise is the \<open>TypeError\<close> of reading or
  writing a property of \<open>undefined\<close>.
\<close>

datatype error = TypeError

text \<open>
  A JavaScript number is modelled as an exact rational; \<open>None\<close> stands for a value
  that is not a finite number (\<open>NaN\<close>, \<open>Infinity\<close> or \<open>-Infinity\<close>). Where
  the layout code computes with such a value the result is not finite again: the code
  never divides by one, and it applies \<open>Math.max\<close> to slots only, which are finite or
  \<open>NaN\<close>. Rounding of floating point arithmetic is not modelled: the styles are exact
  rationals.
\<close>

type_synonym jsnum = "rat option"

definition num_add :: "jsnum \<Rightarrow> jsnum \<Rightarrow> jsnum" where
  "num_add a b = (case (a, b) of (Some x, Some y) \<Rightarrow> Some (x + y) | _ \<Rightarrow> None)"

definition num_sub :: "jsnum \<Rightarrow> jsnum \<Rightarrow> jsnum" where
  "num_sub a b = (case (a, b) of (Some x, Some y) \<Rightarrow> Some (x - y) | _ \<Rightarrow> None)"

definition num_mul :: "jsnum \<Rightarrow> jsnum \<Rightarrow> jsnum" where
  "num_mul a b = (case (a, b) of (Some x, Some y) \<Rightarrow> Some (x * y) | _ \<Rightarrow> None)"

text \<open>Division by zero gives \<open>NaN\<close> or an infinity in JavaScript, never an exception.\<close>

definition num_div :: "jsnum \<Rightarrow> jsnum \<Rightarrow> jsnum" where
  "num_div a b =
     (case (a, b) of
        (Some x, Some y) \<Rightarrow> if y = 0 then None else Some (x / y)
      | _ \<Rightarrow> None)"

text \<open>\<open>Math.max\<close> on slots: \<open>NaN\<close> as soon as one argument is \<open>NaN\<close>.\<close>

definition num_max :: "jsnum \<Rightarrow> jsnum \<Rightarrow> jsnum" where
  "num_max a b = (case (a, b) of (Some x, Some y) \<Rightarrow> Some (max x y) | _ \<Rightarrow> None)"

text \<open>
  A slot is an integer or \<open>undefined\<close> (\<open>None\<close>); in arithmetic \<open>undefined\<close>
  becomes \<open>NaN\<close>.
\<close>

definition of_slot :: "int option \<Rightarrow> jsnum" where
  "of_slot s = map_option rat_of_int s"

text \<open>\<open>Math.round\<close> rounds to the nearest integer, halves upwards.\<close>

definition js_round :: "rat \<Rightarrow> int" where
  "js_round x = \<lfloor>x + 1 / 2\<rfloor>"

text \<open>
  Reading an array: \<open>xs[i]\<close> is \<open>undefined\<close> out of range, and also when the
  index itself is \<open>undefined\<close>.
\<close>

definition js_nth :: "'a list \<Rightarrow> nat \<Rightarrow> 'a option" where
  "js_nth xs i = (if i < length xs then Some (xs ! i) else None)"

definition js_index :: "'a list \<Rightarrow> nat option \<Rightarrow> 'a option" where
  "js_index xs i = (case i of None \<Rightarrow> None | Some n \<Rightarrow> js_nth xs n)"

text \<open>
  Writing an array: \<open>xs[i] = v\<close> beyond the end extends the array, leaving holes
  (\<open>None\<close>) between the old end and \<open>i\<close>.
\<close>

definition js_assign :: "'a option list \<Rightarrow> nat \<Rightarrow> 'a \<Rightarrow> 'a option list" where
  "js_assign xs i v =
     (if i < length xs then xs[i := Some v]
      else xs @ replicate (i - length xs) None @ [Some v])"

text \<open>
  \<open>Array.prototype.forEach\<close> with a callback that receives the element and its
  index, threads a state and may throw.
\<close>

fun forEachFrom :: "('a \<Rightarrow> nat \<Rightarrow> 's \<Rightarrow> error + 's) \<Rightarrow> 'a list \<Rightarrow> nat \<Rightarrow> 's \<Rightarrow> error + 's" where
  "forEachFrom f [] i s = Inr s"
| "forEachFrom f (x # xs) i s =
     (case f x i s of Inl e \<Rightarrow> Inl e | Inr s' \<Rightarrow> forEachFrom f xs (Suc i) s')"

definition forEach :: "('a \<Rightarrow> nat \<Rightarrow> 's \<Rightarrow> error + 's) \<Rightarrow> 'a list \<Rightarrow> 's \<Rightarrow> error + 's" where
  "forEach f xs s = forEachFrom f xs 0 s"

text \<open>
  \<open>Array.prototype.sort\<close> with a comparator: a stable sort, as ECMAScript requires
  since 2019 (insertion from the right: an element is placed before the first element it
  does not compare greater than, so elements that compare equal keep their order).
\<close>

fun insertBy :: "('a \<Rightarrow> 'a \<Rightarrow> int) \<Rightarrow> 'a \<Rightarrow> 'a list \<Rightarrow> 'a list" where
  "insertBy c x [] = [x]"
| "insertBy c x (y # ys) = (if c x y \<le> 0 then x # y # ys else y # insertBy c x ys)"

definition array_sort :: "('a \<Rightarrow> 'a \<Rightarrow> int) \<Rightarrow> 'a list \<Rightarrow> 'a list" where
  "array_sort c xs = foldr (insertBy c) xs []"

section \<open>The date library\<close>

text \<open>
  The operations of the external packages \<open>date-arithmetic\<close> and
  \<open>moment-timezone\<close> that \<open>dates.merge\<close> and \<open>dates.diff\<close> call, over any
  type \<open>'d\<close> of the values that are passed as dates: a date, or \<open>null\<close>.
  \<open>valueOf\<close> is the timestamp in milliseconds (\<open>+date\<close>, which is 0 for
  \<open>null\<close>); a value whose timestamp is \<open>NaN\<close> (\<open>undefined\<close>, an invalid
  date) is outside the type, since the comparator of the sorter is not an order on such
  values. \<open>zoneOffset\<close> is
  \<open>moment.tz.zone(moment.tz.guess()).offset(Date.parse(date))\<close>, and
  \<open>addMinutes d n\<close> is \<open>moment(d).add(n, 'minutes').toDate()\<close>.
  \<open>isNull d\<close> is the test \<open>d == null\<close>, \<open>nullDate\<close> is \<open>null\<close>, and
  \<open>newDate\<close> is what \<open>new Date()\<close> returns: the wall clock, taken not to advance
  during one call of the layout.
\<close>

record 'd dateMath =
  valueOf :: "'d \<Rightarrow> int"
  startOfDay :: "'d \<Rightarrow> 'd"
  startOfMinutes :: "'d \<Rightarrow> 'd"
  getHours :: "'d \<Rightarrow> int"
  setHours :: "'d \<Rightarrow> int \<Rightarrow> 'd"
  getMinutes :: "'d \<Rightarrow> int"
  setMinutes :: "'d \<Rightarrow> int \<Rightarrow> 'd"
  getSeconds :: "'d \<Rightarrow> int"
  setSeconds :: "'d \<Rightarrow> int \<Rightarrow> 'd"
  getMilliseconds :: "'d \<Rightarrow> int"
  setMilliseconds :: "'d \<Rightarrow> int \<Rightarrow> 'd"
  ltMinutes :: "'d \<Rightarrow> 'd \<Rightarrow> bool"
  zoneOffset :: "'d \<Rightarrow> int"
  addMinutes :: "'d \<Rightarrow> int \<Rightarrow> 'd"
  isNull :: "'d \<Rightarrow> bool"
  nullDate :: 'd
  newDate :: 'd

text \<open>
  \<open>dates.merge(date, time)\<close>: \<open>null\<close> when both arguments are \<open>null\<close>;
  otherwise an argument that is \<open>null\<close> is replaced by \<open>new Date()\<close>.
\<close>

definition dates_merge :: "'d dateMath \<Rightarrow> 'd \<Rightarrow> 'd \<Rightarrow> 'd" where
  "dates_merge dm date time =
     (if isNull dm time \<and> isNull dm date then nullDate dm
      else (let time1 = (if isNull dm time then newDate dm else time);
                date0 = (if isNull dm date then newDate dm else date);
                date1 = startOfDay dm date0;
                date2 = setHours dm date1 (getHours dm time1);
                date3 = setMinutes dm date2 (getMinutes dm time1);
                date4 = setSeconds dm date3 (getSeconds dm time1)
            in setMilliseconds dm date4 (getMilliseconds dm time1)))"

text \<open>\<open>dates.diff(dateA, dateB, 'minutes')\<close>; \<open>MILLI.minutes\<close> is 60000.\<close>

definition dates_diff :: "'d dateMath \<Rightarrow> 'd \<Rightarrow> 'd \<Rightarrow> int" where
  "dates_diff dm dateA dateB =
     (let tzOffsetDateA = zoneOffset dm dateA;
          tzOffsetDateB = zoneOffset dm dateB;
          dstOffset = tzOffsetDateA - tzOffsetDateB
      in if dstOffset < 0
         then (let dateANorm = addMinutes dm dateA (- dstOffset)
               in js_round \<bar>rat_of_int (valueOf dm (startOfMinutes dm dateANorm)) / 60000
                             - rat_of_int (valueOf dm (startOfMinutes dm dateB)) / 60000\<bar>)
         else (let dateBNorm = addMinutes dm dateB dstOffset
               in js_round \<bar>rat_of_int (valueOf dm (startOfMinutes dm dateA)) / 60000
                             - rat_of_int (valueOf dm (startOfMinutes dm dateBNorm)) / 60000\<bar>))"

section \<open>Slots\<close>

definition startsBefore :: "'d dateMath \<Rightarrow> 'd \<Rightarrow> 'd \<Rightarrow> bool" where
  "startsBefore dm date mn = ltMinutes dm (dates_merge dm mn date) mn"

definition positionFromDate :: "'d dateMath \<Rightarrow> 'd \<Rightarrow> 'd \<Rightarrow> int \<Rightarrow> int" where
  "positionFromDate dm date mn total' =
     (if startsBefore dm date mn then 0
      else (let diff = dates_diff dm mn (dates_merge dm mn date) in min diff total'))"

text \<open>
  The configuration record of \<open>getStyledEvents\<close>, which is also the record handed to
  the helpers. An element of \<open>events\<close> is a reference to an event object (\<open>'e\<close>
  is the type of object identities, so an element is never \<open>undefined\<close> or another
  falsy value). \<open>get(event, accessor)\<close>, of the module \<open>accessors\<close>, is the
  application of the accessor: it reads the start or the end date of the object, fields
  the layout never writes, and gives a date or \<open>null\<close>. \<open>totalMin\<close> and
  \<open>step\<close> are integers.
\<close>

record ('e, 'd) helperArgs =
  events :: "'e list"
  startAccessor :: "'e \<Rightarrow> 'd"
  endAccessor :: "'e \<Rightarrow> 'd"
  min' :: 'd
  totalMin :: int
  step :: int

text \<open>The comparator of \<open>sort\<close> and the sorter itself.\<close>

definition compareEvents :: "'d dateMath \<Rightarrow> ('e, 'd) helperArgs \<Rightarrow> 'e \<Rightarrow> 'e \<Rightarrow> int" where
  "compareEvents dm a x y =
     (let startA = valueOf dm (startAccessor a x);
          startB = valueOf dm (startAccessor a y)
      in if startA = startB
         then valueOf dm (endAccessor a y) - valueOf dm (endAccessor a x)
         else startA - startB)"

definition sort' :: "'d dateMath \<Rightarrow> ('e, 'd) helperArgs \<Rightarrow> 'e list" where
  "sort' dm a = array_sort (compareEvents dm a) (events a)"

text \<open>\<open>getSlot\<close>: \<open>undefined\<close> for a missing event.\<close>

definition getSlot :: "'d dateMath \<Rightarrow> 'e option \<Rightarrow> ('e \<Rightarrow> 'd) \<Rightarrow> 'd \<Rightarrow> int \<Rightarrow> int option" where
  "getSlot dm event accessor mn total' =
     (case event of
        None \<Rightarrow> None
      | Some e \<Rightarrow> Some (positionFromDate dm (accessor e) mn total'))"

section \<open>The relationship classifier\<close>

text \<open>
  An index is a number or \<open>undefined\<close>. A comparison with an \<open>undefined\<close> slot
  is false.
\<close>

definition isSibling :: "'d dateMath \<Rightarrow> nat option \<Rightarrow> nat option \<Rightarrow> ('e, 'd) helperArgs \<Rightarrow> bool" where
  "isSibling dm idx1 idx2 a =
     (let event1 = js_index (events a) idx1;
          event2 = js_index (events a) idx2
      in if event1 = None \<or> event2 = None then False
         else (let start1 = getSlot dm event1 (startAccessor a) (min' a) (totalMin a);
                   start2 = getSlot dm event2 (startAccessor a) (min' a) (totalMin a)
               in case (start1, start2) of
                    (Some s1, Some s2) \<Rightarrow> \<bar>s1 - s2\<bar> < 30
                  | _ \<Rightarrow> False))"

definition isChild :: "'d dateMath \<Rightarrow> nat option \<Rightarrow> nat option \<Rightarrow> ('e, 'd) helperArgs \<Rightarrow> bool" where
  "isChild dm parentIdx childIdx a =
     (if isSibling dm parentIdx childIdx a then False
      else (let parentEnd = getSlot dm (js_index (events a) parentIdx) (endAccessor a) (min' a) (totalMin a);
                childStart = getSlot dm (js_index (events a) childIdx) (startAccessor a) (min' a) (totalMin a)
            in case (parentEnd, childStart) of
                 (Some pe, Some cs) \<Rightarrow> pe > cs
               | _ \<Rightarrow> False))"

lemma isSibling_exists:
  "isSibling dm idx1 (Some j) a \<Longrightarrow> j < length (events a)"
  by (auto simp: isSibling_def js_index_def js_nth_def Let_def split: if_splits)

lemma isChild_exists:
  "isChild dm parentIdx (Some j) a \<Longrightarrow> j < length (events a)"
  by (auto simp: isChild_def getSlot_def js_index_def js_nth_def Let_def split: if_splits option.splits)

section \<open>The grouper\<close>

text \<open>
  The loop of \<open>getSiblings\<close>: \<open>nextIdx\<close> is incremented before each test.
\<close>

function getSiblings_loop ::
  "'d dateMath \<Rightarrow> nat \<Rightarrow> nat \<Rightarrow> nat list \<Rightarrow> ('e, 'd) helperArgs \<Rightarrow> nat list" where
  "getSiblings_loop dm idx nextIdx siblings a =
     (if isSibling dm (Some idx) (Some (Suc nextIdx)) a
      then getSiblings_loop dm idx (Suc nextIdx) (siblings @ [Suc nextIdx]) a
      else siblings)"
  by pat_completeness auto
termination
  by (relation "measure (\<lambda>(dm, idx, nextIdx, siblings, a). length (events a) - nextIdx)")
     (auto dest: isSibling_exists)

declare getSiblings_loop.simps [simp del]

definition getSiblings :: "'d dateMath \<Rightarrow> nat \<Rightarrow> ('e, 'd) helperArgs \<Rightarrow> nat list" where
  "getSiblings dm idx a = getSiblings_loop dm idx idx [] a"

text \<open>
  The inner loop of \<open>getChildGroups\<close> returns the group and the value of
  \<open>siblingIdx\<close> at its exit (the first index that is not a sibling).
\<close>

function getChildGroups_inner ::
  "'d dateMath \<Rightarrow> nat \<Rightarrow> nat \<Rightarrow> nat list \<Rightarrow> ('e, 'd) helperArgs \<Rightarrow> nat list \<times> nat" where
  "getChildGroups_inner dm nextIdx siblingIdx childGroup a =
     (if isSibling dm (Some nextIdx) (Some (Suc siblingIdx)) a
      then getChildGroups_inner dm nextIdx (Suc siblingIdx) (childGroup @ [Suc siblingIdx]) a
      else (childGroup, Suc siblingIdx))"
  by pat_completeness auto
termination
  by (relation "measure (\<lambda>(dm, nextIdx, siblingIdx, childGroup, a). length (events a) - siblingIdx)")
     (auto dest: isSibling_exists)

declare getChildGroups_inner.simps [simp del]

lemma getChildGroups_inner_advances:
  "getChildGroups_inner dm nextIdx siblingIdx childGroup a = (g, s) \<Longrightarrow> siblingIdx < s"
proof (induction dm nextIdx siblingIdx childGroup a rule: getChildGroups_inner.induct)
  case (1 dm nextIdx siblingIdx childGroup a)
  show ?case
  proof (cases "isSibling dm (Some nextIdx) (Some (Suc siblingIdx)) a")
    case True
    with "1.prems" have "getChildGroups_inner dm nextIdx (Suc siblingIdx) (childGroup @ [Suc siblingIdx]) a = (g, s)"
      by (simp add: getChildGroups_inner.simps [of dm nextIdx siblingIdx])
    with "1.IH" True have "Suc siblingIdx < s" by blast
    then show ?thesis by simp
  next
    case False
    with "1.prems" show ?thesis
      by (simp add: getChildGroups_inner.simps [of dm nextIdx siblingIdx])
  qed
qed

record childGroupsResult =
  childGroups :: "nat list list"
  nbrOfChildColumns :: nat

function getChildGroups_loop ::
  "'d dateMath \<Rightarrow> nat \<Rightarrow> nat \<Rightarrow> nat list list \<Rightarrow> nat \<Rightarrow> ('e, 'd) helperArgs \<Rightarrow> childGroupsResult" where
  "getChildGroups_loop dm idx nextIdx groups nbrOfColumns a =
     (if isChild dm (Some idx) (Some nextIdx) a
      then (case getChildGroups_inner dm nextIdx nextIdx [nextIdx] a of
              (childGroup, siblingIdx) \<Rightarrow>
                getChildGroups_loop dm idx siblingIdx (groups @ [childGroup])
                  (max nbrOfColumns (length childGroup)) a)
      else \<lparr>childGroups = groups, nbrOfChildColumns = nbrOfColumns\<rparr>)"
  by pat_completeness auto
termination
proof (relation "measure (\<lambda>(dm, idx, nextIdx, groups, nbrOfColumns, a). length (events a) - nextIdx)",
    goal_cases)
  case 1
  show ?case by simp
next
  case (2 dm idx nextIdx groups nbrOfColumns a childGroup siblingIdx)
  from 2(1) have "nextIdx < length (events a)"
    by (rule isChild_exists)
  moreover from 2(2) have "nextIdx < siblingIdx"
    using getChildGroups_inner_advances [of dm nextIdx nextIdx "[nextIdx]" a childGroup siblingIdx]
    by simp
  ultimately show ?case by simp
qed

declare getChildGroups_loop.simps [simp del]

definition getChildGroups :: "'d dateMath \<Rightarrow> nat \<Rightarrow> nat \<Rightarrow> ('e, 'd) helperArgs \<Rightarrow> childGroupsResult" where
  "getChildGroups dm idx nextIdx a = getChildGroups_loop dm idx nextIdx [] 0 a"

section \<open>The layout engine\<close>

record yStyles =
  top' :: jsnum
  height :: jsnum

record style = yStyles +
  width :: jsnum
  xOffset :: jsnum

definition getYStyles :: "'d dateMath \<Rightarrow> nat \<Rightarrow> ('e, 'd) helperArgs \<Rightarrow> yStyles" where
  "getYStyles dm idx a =
     (let event = js_nth (events a) idx;
          start = getSlot dm event (startAccessor a) (min' a) (totalMin a);
          end' = num_max (of_slot (getSlot dm event (endAccessor a) (min' a) (totalMin a)))
                   (num_add (of_slot start) (Some (rat_of_int (step a))));
          topv = num_mul (num_div (of_slot start) (Some (rat_of_int (totalMin a)))) (Some 100);
          bottom = num_mul (num_div end' (Some (rat_of_int (totalMin a)))) (Some 100)
      in \<lparr>top' = topv, height = num_sub bottom topv\<rparr>)"

definition isFirstSibling :: "nat \<Rightarrow> bool" where
  "isFirstSibling siblingIdx = (siblingIdx = 0)"

definition isOnlyNestedElement :: "nat list \<Rightarrow> bool" where
  "isOnlyNestedElement group' = (length group' = 1)"

text \<open>
  The layout metadata the code writes onto an event object (\<open>None\<close>: the field is
  absent), kept in a store keyed by the object; an entry of the output array.
\<close>

record metadata =
  overlappingCount :: "nat option"
  groupNumber :: "nat option"
  groupStart :: "bool option"
  groupEnd :: "bool option"

record 'e styledEvent =
  event :: "'e option"
  style :: style

text \<open>
  The state the two phases of an iteration work on: the metadata of the event objects
  and the array \<open>styledEvents\<close>, which may have holes.
\<close>

record 'e layout =
  meta :: "'e \<Rightarrow> metadata"
  styledEvents :: "'e styledEvent option list"

text \<open>
  The callback of the top level phase (\<open>[idx, ...siblings].forEach\<close>). Writing a
  field of \<open>events[eventIdx]\<close> throws when there is no such event.
\<close>

definition setTopLevelStyle ::
  "'d dateMath \<Rightarrow> ('e, 'd) helperArgs \<Rightarrow> nat list \<Rightarrow> nat \<Rightarrow> nat \<Rightarrow> 'e layout \<Rightarrow> error + 'e layout" where
  "setTopLevelStyle dm a siblings eventIdx siblingIdx st =
     (case (if siblings \<noteq> []
            then (let siblingsNumber = length siblings + 1
                  in case js_nth (events a) eventIdx of
                       None \<Rightarrow> Inl TypeError
                     | Some e \<Rightarrow>
                         (let m = (meta st)(e := (meta st e)
                                \<lparr>overlappingCount := Some siblingsNumber,
                                 groupStart := Some (siblingIdx = 0),
                                 groupEnd := Some (siblingIdx = length siblings)\<rparr>);
                              width' = num_div (Some 100) (Some (of_nat siblingsNumber));
                              xOffset' = (if isFirstSibling siblingIdx then Some 0
                                         else num_mul width' (Some (of_nat siblingIdx)))
                          in Inr (m, width', xOffset')))
            else Inr (meta st, Some 100, Some 0))
      of Inl err \<Rightarrow> Inl err
       | Inr (m, width', xOffset') \<Rightarrow>
           (let ys = getYStyles dm eventIdx a
            in Inr \<lparr>meta = m,
                    styledEvents = js_assign (styledEvents st) eventIdx
                      \<lparr>event = js_nth (events a) eventIdx,
                       style = \<lparr>top' = top' ys, height = height ys,
                                width = width', xOffset = xOffset'\<rparr>\<rparr>\<rparr>))"

text \<open>
  The walk that moves a child group to a sibling of the anchor:
  \<open>while (isChild(siblings[siblingIdx], group[0], helperArgs))\<close>.
\<close>

lemma isChild_undefined: "isChild dm None childIdx a = False"
  by (simp add: isChild_def isSibling_def getSlot_def js_index_def)

function reparent ::
  "'d dateMath \<Rightarrow> nat list \<Rightarrow> nat option \<Rightarrow> nat option \<Rightarrow> nat \<Rightarrow> ('e, 'd) helperArgs \<Rightarrow> nat option" where
  "reparent dm siblings group0 parentIdx siblingIdx a =
     (if isChild dm (js_nth siblings siblingIdx) group0 a
      then reparent dm siblings group0 (js_nth siblings siblingIdx) (Suc siblingIdx) a
      else parentIdx)"
  by pat_completeness auto
termination
proof (relation "measure (\<lambda>(dm, siblings, group0, parentIdx, siblingIdx, a). length siblings - siblingIdx)",
    goal_cases)
  case 1
  show ?case by simp
next
  case (2 dm siblings group0 parentIdx siblingIdx a)
  then have "js_nth siblings siblingIdx \<noteq> None"
    by (cases "js_nth siblings siblingIdx") (simp_all add: isChild_undefined)
  then have "siblingIdx < length siblings"
    by (simp add: js_nth_def split: if_splits)
  then show ?case by simp
qed

declare reparent.simps [simp del]

text \<open>
  The callback of the inner \<open>group.forEach\<close>. Destructuring
  \<open>styledEvents[parentIdx]\<close> throws when the entry is missing or a hole; so does
  writing a field of a missing event.
\<close>

definition setChildStyle ::
  "'d dateMath \<Rightarrow> ('e, 'd) helperArgs \<Rightarrow> nat list \<Rightarrow> nat \<Rightarrow> nat option \<Rightarrow> nat \<Rightarrow> nat \<Rightarrow> 'e layout
     \<Rightarrow> error + 'e layout" where
  "setChildStyle dm a group' groupIndex parentIdx eventIdx i st =
     (case js_index (styledEvents st) parentIdx of
        None \<Rightarrow> Inl TypeError
      | Some None \<Rightarrow> Inl TypeError
      | Some (Some parent) \<Rightarrow>
          (let parentStyle = style parent;
               parentWidth = width parentStyle;
               parentXOffset = xOffset parentStyle;
               event = js_nth (events a) eventIdx;
               offset = 3;
               nestedGroupOffset = 3;
               groupNumber' = groupIndex + 1;
               overlappingCount' = length group'
           in case (if isOnlyNestedElement group'
                    then (let xOffset' = Some (of_nat (offset * groupNumber'));
                              width' = num_sub (Some 100) xOffset'
                          in Inr (meta st, width', xOffset'))
                    else (let groupOffset = nestedGroupOffset * groupNumber';
                              width' = num_sub
                                (num_div (num_sub parentWidth (Some (of_nat (offset * groupIndex))))
                                   (Some (of_nat overlappingCount')))
                                (num_div (Some (of_nat offset)) (Some (of_nat overlappingCount')));
                              childOffsetInGroup = num_mul width' (Some (of_nat i));
                              xOffset' = num_add (num_add parentXOffset childOffsetInGroup)
                                          (Some (of_nat groupOffset))
                          in case event of
                               None \<Rightarrow> Inl TypeError
                             | Some e \<Rightarrow>
                                 Inr ((meta st)(e := (meta st e)
                                        \<lparr>overlappingCount := Some overlappingCount',
                                         groupNumber := Some groupNumber',
                                         groupStart := Some (i = 0),
                                         groupEnd := Some (int i = int (length group') - 1)\<rparr>),
                                      width', xOffset')))
              of Inl err \<Rightarrow> Inl err
               | Inr (m, width', xOffset') \<Rightarrow>
                   (let ys = getYStyles dm eventIdx a
                    in Inr \<lparr>meta = m,
                            styledEvents = js_assign (styledEvents st) eventIdx
                              \<lparr>event = event,
                               style = \<lparr>top' = top' ys, height = height ys,
                                        width = width', xOffset = xOffset'\<rparr>\<rparr>\<rparr>)))"

text \<open>The callback of \<open>childGroups.forEach\<close>.\<close>

definition setChildGroupStyles ::
  "'d dateMath \<Rightarrow> ('e, 'd) helperArgs \<Rightarrow> nat \<Rightarrow> nat list \<Rightarrow> nat list \<Rightarrow> nat \<Rightarrow> 'e layout
     \<Rightarrow> error + 'e layout" where
  "setChildGroupStyles dm a idx siblings group' groupIndex st =
     (let parentIdx = reparent dm siblings (js_nth group' 0) (Some idx) 0 a
      in forEach (setChildStyle dm a group' groupIndex parentIdx) group' st)"

section \<open>The driver\<close>

function layout_loop ::
  "'d dateMath \<Rightarrow> ('e, 'd) helperArgs \<Rightarrow> nat \<Rightarrow> 'e layout \<Rightarrow> error + 'e layout" where
  "layout_loop dm a idx st =
     (if idx < length (events a)
      then (let siblings = getSiblings dm idx a;
                childGroups' = childGroups (getChildGroups dm idx (idx + length siblings + 1) a)
            in case forEach (setTopLevelStyle dm a siblings) (idx # siblings) st of
                 Inl err \<Rightarrow> Inl err
               | Inr st1 \<Rightarrow>
                   (case forEach (setChildGroupStyles dm a idx siblings) childGroups' st1 of
                      Inl err \<Rightarrow> Inl err
                    | Inr st2 \<Rightarrow>
                        layout_loop dm a
                          (idx + (1 + length siblings
                                  + foldl (\<lambda>total' group'. total' + length group') 0 childGroups'))
                          st2))
      else Inr st)"
  by pat_completeness auto
termination
  by (relation "measure (\<lambda>(dm, a, idx, st). length (events a) - idx)") auto

declare layout_loop.simps [simp del]

text \<open>
  \<open>getStyledEvents\<close> on a configuration and the metadata the event objects carry at
  the call. Besides the returned array, the outcome records the two effects of the call:
  the caller's array after the in-place sort and the metadata of the event objects.
\<close>

record 'e outcome =
  returned :: "'e styledEvent option list"
  eventsAfter :: "'e list"
  metaAfter :: "'e \<Rightarrow> metadata"

definition getStyledEvents ::
  "'d dateMath \<Rightarrow> ('e, 'd) helperArgs \<Rightarrow> ('e \<Rightarrow> metadata) \<Rightarrow> error + 'e outcome" where
  "getStyledEvents dm args m =
     (let events' = sort' dm args;
          helperArgs = args\<lparr>events := events'\<rparr>
      in case layout_loop dm helperArgs 0 \<lparr>meta = m, styledEvents = []\<rparr> of
           Inl err \<Rightarrow> Inl err
         | Inr st \<Rightarrow> Inr \<lparr>returned = styledEvents st, eventsAfter = events', metaAfter = meta st\<rparr>)"

section \<open>Notions used in the statements\<close>

text \<open>
  The timestamps the sorter compares, and the projected start and end slot of the event at
  an index of the array.
\<close>

definition startTime :: "'d dateMath \<Rightarrow> ('e, 'd) helperArgs \<Rightarrow> 'e \<Rightarrow> int" where
  "startTime dm a e = valueOf dm (startAccessor a e)"

definition endTime :: "'d dateMath \<Rightarrow> ('e, 'd) helperArgs \<Rightarrow> 'e \<Rightarrow> int" where
  "endTime dm a e = valueOf dm (endAccessor a e)"

definition startSlot :: "'d dateMath \<Rightarrow> ('e, 'd) helperArgs \<Rightarrow> nat \<Rightarrow> int" where
  "startSlot dm a i = positionFromDate dm (startAccessor a (events a ! i)) (min' a) (totalMin a)"

definition endSlot :: "'d dateMath \<Rightarrow> ('e, 'd) helperArgs \<Rightarrow> nat \<Rightarrow> int" where
  "endSlot dm a i = positionFromDate dm (endAccessor a (events a ! i)) (min' a) (totalMin a)"

definition timesOf :: "'d dateMath \<Rightarrow> ('e, 'd) helperArgs \<Rightarrow> 'e \<Rightarrow> int \<times> int" where
  "timesOf dm a e = (startTime dm a e, endTime dm a e)"

text \<open>
  The child groups found from an index are runs of consecutive indices, one after the other.
  The driver keeps \<open>styledEvents\<close> filled up to its cursor: entry \<open>i\<close> holds
  the event at index \<open>i\<close> with the vertical styles of that index.
\<close>

fun groupsFrom :: "nat \<Rightarrow> nat list list \<Rightarrow> bool" where
  "groupsFrom n [] = True"
| "groupsFrom n (g # gs) = (g \<noteq> [] \<and> g = [n ..< n + length g] \<and> groupsFrom (n + length g) gs)"

definition styledUpTo :: "'d dateMath \<Rightarrow> ('e, 'd) helperArgs \<Rightarrow> nat \<Rightarrow> 'e layout \<Rightarrow> bool" where
  "styledUpTo dm a k st \<longleftrightarrow>
     length (styledEvents st) = k
     \<and> (\<forall>i<k. \<exists>w x. styledEvents st ! i =
            Some \<lparr>event = Some (events a ! i),
                  style = \<lparr>top' = top' (getYStyles dm i a), height = height (getYStyles dm i a),
                           width = w, xOffset = x\<rparr>\<rparr>)"

text \<open>
  Two configurations have the same dates when their events have the same start and end
  dates position by position and the window and the step agree: the events may be different
  objects, of different types. The dates of a configuration are present when the window
  start and every start and end date of its events is a date, not \<open>null\<close>. Two
  configurations, each with its date library, have the same slots when their events have
  the same start and end slots position by position and the length of the window and the
  step agree. Two states have the same styles when their arrays of styled
  events agree on every style, holes included. \<open>compareDates\<close> is the comparator of
  the sorter on the pair of dates of an event.
\<close>

definition datesOf :: "('e, 'd) helperArgs \<Rightarrow> 'e \<Rightarrow> 'd \<times> 'd" where
  "datesOf a e = (startAccessor a e, endAccessor a e)"

definition sameDates :: "('e, 'd) helperArgs \<Rightarrow> ('f, 'd) helperArgs \<Rightarrow> bool" where
  "sameDates a b \<longleftrightarrow>
     map (datesOf a) (events a) = map (datesOf b) (events b)
     \<and> min' a = min' b \<and> totalMin a = totalMin b \<and> step a = step b"

definition datesPresent :: "'d dateMath \<Rightarrow> ('e, 'd) helperArgs \<Rightarrow> bool" where
  "datesPresent dm a \<longleftrightarrow>
     \<not> isNull dm (min' a)
     \<and> list_all (\<lambda>e. \<not> isNull dm (startAccessor a e) \<and> \<not> isNull dm (endAccessor a e)) (events a)"

definition sameSlots :: "'d dateMath \<Rightarrow> ('e, 'd) helperArgs \<Rightarrow> 'd dateMath \<Rightarrow> ('f, 'd) helperArgs \<Rightarrow> bool" where
  "sameSlots dm a dm' b \<longleftrightarrow>
     length (events a) = length (events b) \<and> totalMin a = totalMin b \<and> step a = step b
     \<and> (\<forall>i < length (events a). startSlot dm a i = startSlot dm' b i \<and> endSlot dm a i = endSlot dm' b i)"

definition sameStyles :: "'e layout \<Rightarrow> 'f layout \<Rightarrow> bool" where
  "sameStyles s t \<longleftrightarrow>
     map (map_option style) (styledEvents s) = map (map_option style) (styledEvents t)"

definition compareDates :: "'d dateMath \<Rightarrow> 'd \<times> 'd \<Rightarrow> 'd \<times> 'd \<Rightarrow> int" where
  "compareDates dm p q =
     (let startA = valueOf dm (fst p);
          startB = valueOf dm (fst q)
      in if startA = startB then valueOf dm (snd q) - valueOf dm (snd p) else startA - startB)"

section \<open>A date library and events for the examples\<close>

text \<open>
  A date is a timestamp in milliseconds, in UTC and without daylight saving, or
  \<open>null\<close> (\<open>None\<close>), which the operations of the library take for the timestamp 0
  as \<open>new Date(null)\<close> is; the clock of \<open>utc\<close> stands at midnight of the first
  day. \<open>clock h m\<close> is the time \<open>h:m\<close> on the first day. An example event is an identity with a start
  and an end date; \<open>day\<close> lays a list of them out on a day of 1440 minutes that
  begins at midnight, with the default step of 30 minutes.
\<close>

type_synonym jsdate = "int option"

definition ms :: "jsdate \<Rightarrow> int" where
  "ms d = (case d of None \<Rightarrow> 0 | Some t \<Rightarrow> t)"

definition utc :: "jsdate dateMath" where
  "utc = \<lparr>valueOf = ms,
          startOfDay = (\<lambda>d. Some (ms d - ms d mod 86400000)),
          startOfMinutes = (\<lambda>d. Some (ms d - ms d mod 60000)),
          getHours = (\<lambda>d. ms d mod 86400000 div 3600000),
          setHours = (\<lambda>d h. Some (ms d - (ms d mod 86400000 div 3600000) * 3600000 + h * 3600000)),
          getMinutes = (\<lambda>d. ms d mod 3600000 div 60000),
          setMinutes = (\<lambda>d m. Some (ms d - (ms d mod 3600000 div 60000) * 60000 + m * 60000)),
          getSeconds = (\<lambda>d. ms d mod 60000 div 1000),
          setSeconds = (\<lambda>d s. Some (ms d - (ms d mod 60000 div 1000) * 1000 + s * 1000)),
          getMilliseconds = (\<lambda>d. ms d mod 1000),
          setMilliseconds = (\<lambda>d n. Some (ms d - ms d mod 1000 + n)),
          ltMinutes = (\<lambda>a b. ms a div 60000 < ms b div 60000),
          zoneOffset = (\<lambda>d. 0),
          addMinutes = (\<lambda>d n. Some (ms d + n * 60000)),
          isNull = (\<lambda>d. d = None),
          nullDate = None,
          newDate = Some 0\<rparr>"

definition clock :: "int \<Rightarrow> int \<Rightarrow> jsdate" where
  "clock h m = Some ((h * 60 + m) * 60000)"

definition day :: "(nat \<times> jsdate \<times> jsdate) list \<Rightarrow> (nat \<times> jsdate \<times> jsdate, jsdate) helperArgs" where
  "day evs = \<lparr>events = evs, startAccessor = (\<lambda>e. fst (snd e)), endAccessor = (\<lambda>e. snd (snd e)),
              min' = clock 0 0, totalMin = 1440, step = 30\<rparr>"

definition noMeta :: "'e \<Rightarrow> metadata" where
  "noMeta = (\<lambda>e. \<lparr>overlappingCount = None, groupNumber = None, groupStart = None, groupEnd = None\<rparr>)"

text \<open>
  The events of the examples: three starts 29 and 30 minutes apart; two events that start
  together and an earlier one, the same in another order, and a copy of them as other
  objects; an event that ends
  before it starts; two siblings in sorted order; a parent with a group of two children,
  and the state after the top level phase on that parent; an anchor with a short and a
  long sibling and one child, and the same with two children; an event without a start
  date.
\<close>

definition threeStarts :: "(nat \<times> jsdate \<times> jsdate, jsdate) helperArgs" where
  "threeStarts = day [(0, clock 9 0, clock 10 0), (1, clock 9 29, clock 10 0), (2, clock 9 30, clock 10 0)]"

definition sameStart :: "(nat \<times> jsdate \<times> jsdate, jsdate) helperArgs" where
  "sameStart = day [(0, clock 9 0, clock 10 0), (1, clock 9 0, clock 11 0), (2, clock 8 0, clock 8 30)]"

definition inverted :: "(nat \<times> jsdate \<times> jsdate, jsdate) helperArgs" where
  "inverted = day [(0, clock 10 0, clock 9 0)]"

definition twoAtNine :: "(nat \<times> jsdate \<times> jsdate, jsdate) helperArgs" where
  "twoAtNine = day [(1, clock 9 0, clock 11 0), (0, clock 9 0, clock 10 0)]"

definition nested :: "(nat \<times> jsdate \<times> jsdate, jsdate) helperArgs" where
  "nested = day [(0, clock 9 0, clock 12 0), (1, clock 10 0, clock 10 30), (2, clock 10 10, clock 10 30)]"

definition nestedParentStyled :: "(nat \<times> jsdate \<times> jsdate) layout" where
  "nestedParentStyled =
     \<lparr>meta = noMeta,
      styledEvents = [Some \<lparr>event = Some (0, clock 9 0, clock 12 0),
                            style = \<lparr>top' = Some (75 / 2), height = Some (25 / 2),
                                     width = Some 100, xOffset = Some 0\<rparr>\<rparr>]\<rparr>"

definition shortSibling :: "(nat \<times> jsdate \<times> jsdate, jsdate) helperArgs" where
  "shortSibling = day [(0, clock 9 0, clock 12 0), (1, clock 9 5, clock 9 20),
                       (2, clock 9 10, clock 11 0), (3, clock 10 0, clock 10 30)]"

definition lateParent :: "(nat \<times> jsdate \<times> jsdate, jsdate) helperArgs" where
  "lateParent = day [(0, clock 9 0, clock 12 0), (1, clock 9 5, clock 9 20), (2, clock 9 10, clock 11 0),
                     (3, clock 10 0, clock 10 30), (4, clock 10 10, clock 10 30)]"

definition noStart :: "(nat \<times> jsdate \<times> jsdate, jsdate) helperArgs" where
  "noStart = day [(0, None, clock 10 0)]"

definition sameStartShuffled :: "(nat \<times> jsdate \<times> jsdate, jsdate) helperArgs" where
  "sameStartShuffled = day [(12, clock 8 0, clock 8 30), (10, clock 9 0, clock 10 0), (11, clock 9 0, clock 11 0)]"

definition sameStartCopy :: "(nat \<times> jsdate \<times> jsdate, jsdate) helperArgs" where
  "sameStartCopy = day [(10, clock 9 0, clock 10 0), (11, clock 9 0, clock 11 0), (12, clock 8 0, clock 8 30)]"

definition annotated :: "'e \<Rightarrow> metadata" where
  "annotated = (\<lambda>e. \<lparr>overlappingCount = Some 7, groupNumber = Some 7, groupStart = Some True,
                      groupEnd = Some True\<rparr>)"

section \<open>Properties\<close>

subsection \<open>Arrays and \<open>forEach\<close>\<close>

lemma js_nth_eq_Some: "js_nth xs i = Some x \<longleftrightarrow> i < length xs \<and> xs ! i = x"
  by (auto simp: js_nth_def)

lemma js_nth_eq_None: "js_nth xs i = None \<longleftrightarrow> length xs \<le> i"
  by (auto simp: js_nth_def)

lemma js_nth_in_range: "i < length xs \<Longrightarrow> js_nth xs i = Some (xs ! i)"
  by (simp add: js_nth_def)

lemma js_assign_end: "js_assign xs (length xs) v = xs @ [Some v]"
  by (simp add: js_assign_def)

lemma js_nth_js_assign_same: "js_nth (js_assign xs i v) i = Some (Some v)"
  by (simp add: js_assign_def js_nth_def nth_append)

lemma js_nth_js_assign_other:
  "js_nth xs j = Some (Some w) \<Longrightarrow> i \<noteq> j \<Longrightarrow> js_nth (js_assign xs i v) j = Some (Some w)"
  by (auto simp: js_assign_def js_nth_def nth_append split: if_splits)

lemma map_js_assign:
  "map (map_option f) (js_assign xs i v) = js_assign (map (map_option f) xs) i (f v)"
  by (simp add: js_assign_def map_update)

lemma js_index_map: "js_index (map f xs) i = map_option f (js_index xs i)"
  by (cases i) (simp_all add: js_index_def js_nth_def)

lemma forEachFrom_rule:
  assumes init: "I i0 s"
    and step: "\<And>k s. k < length xs \<Longrightarrow> I (i0 + k) s \<Longrightarrow>
                 \<exists>s'. f (xs ! k) (i0 + k) s = Inr s' \<and> I (Suc (i0 + k)) s'"
  shows "\<exists>s'. forEachFrom f xs i0 s = Inr s' \<and> I (i0 + length xs) s'"
  using assms
proof (induction xs arbitrary: i0 s)
  case Nil
  then show ?case by simp
next
  case (Cons x xs)
  from Cons.prems(2) [of 0 s] Cons.prems(1) obtain s1 where
    s1: "f x i0 s = Inr s1" "I (Suc i0) s1"
    by auto
  have "\<exists>s'. forEachFrom f xs (Suc i0) s1 = Inr s' \<and> I (Suc i0 + length xs) s'"
  proof (rule Cons.IH)
    show "I (Suc i0) s1" by fact
  next
    fix k s
    assume "k < length xs" "I (Suc i0 + k) s"
    with Cons.prems(2) [of "Suc k" s]
    show "\<exists>s'. f (xs ! k) (Suc i0 + k) s = Inr s' \<and> I (Suc (Suc i0 + k)) s'"
      by simp
  qed
  with s1 show ?case by simp
qed

lemma forEachFrom_related:
  assumes step: "\<And>x i s s' t t'. R s t \<Longrightarrow> f x i s = Inr s' \<Longrightarrow> g x i t = Inr t' \<Longrightarrow> R s' t'"
  shows "R s t \<Longrightarrow> forEachFrom f xs i s = Inr s' \<Longrightarrow> forEachFrom g xs i t = Inr t' \<Longrightarrow> R s' t'"
proof (induction xs arbitrary: i s t)
  case Nil
  then show ?case by simp
next
  case (Cons x xs)
  from Cons.prems(2) obtain s1 where s1: "f x i s = Inr s1" "forEachFrom f xs (Suc i) s1 = Inr s'"
    by (auto split: sum.splits)
  from Cons.prems(3) obtain t1 where t1: "g x i t = Inr t1" "forEachFrom g xs (Suc i) t1 = Inr t'"
    by (auto split: sum.splits)
  from step [OF Cons.prems(1) s1(1) t1(1)] have "R s1 t1" .
  from Cons.IH [OF this s1(2) t1(2)] show ?case .
qed

subsection \<open>The sorter\<close>

lemma mset_insertBy: "mset (insertBy c x xs) = add_mset x (mset xs)"
  by (induction xs) auto

lemma mset_array_sort: "mset (array_sort c xs) = mset xs"
  by (induction xs) (auto simp: array_sort_def mset_insertBy)

lemma set_insertBy: "set (insertBy c x xs) = insert x (set xs)"
  by (induction xs) auto

lemma sorted_insertBy:
  assumes total: "\<And>x y. c x y \<le> 0 \<or> c y x \<le> 0"
    and trans: "\<And>x y z. c x y \<le> 0 \<Longrightarrow> c y z \<le> 0 \<Longrightarrow> c x z \<le> 0"
  shows "sorted_wrt (\<lambda>x y. c x y \<le> 0) xs \<Longrightarrow> sorted_wrt (\<lambda>x y. c x y \<le> 0) (insertBy c x xs)"
proof (induction xs)
  case Nil
  show ?case by simp
next
  case (Cons y ys)
  show ?case
  proof (cases "c x y \<le> 0")
    case True
    with Cons.prems trans show ?thesis by auto
  next
    case False
    with total have "c y x \<le> 0" by blast
    with False Cons show ?thesis by (auto simp: set_insertBy)
  qed
qed

lemma sorted_array_sort:
  assumes total: "\<And>x y. c x y \<le> 0 \<or> c y x \<le> 0"
    and trans: "\<And>x y z. c x y \<le> 0 \<Longrightarrow> c y z \<le> 0 \<Longrightarrow> c x z \<le> 0"
  shows "sorted_wrt (\<lambda>x y. c x y \<le> 0) (array_sort c xs)"
proof (induction xs)
  case Nil
  show ?case by (simp add: array_sort_def)
next
  case (Cons x xs)
  have "array_sort c (x # xs) = insertBy c x (array_sort c xs)"
    by (simp add: array_sort_def)
  with Cons sorted_insertBy [of c, OF total trans] show ?case by simp
qed

lemma array_sort_sorted:
  "sorted_wrt (\<lambda>x y. c x y \<le> 0) xs \<Longrightarrow> array_sort c xs = xs"
proof (induction xs)
  case Nil
  show ?case by (simp add: array_sort_def)
next
  case (Cons x xs)
  then have "array_sort c xs = xs" by simp
  then have "array_sort c (x # xs) = insertBy c x xs"
    by (simp add: array_sort_def)
  with Cons.prems show ?case by (cases xs) auto
qed

lemma compareEvents_le:
  "compareEvents dm a x y \<le> 0 \<longleftrightarrow>
     startTime dm a x < startTime dm a y
     \<or> (startTime dm a x = startTime dm a y \<and> endTime dm a y \<le> endTime dm a x)"
  by (auto simp: compareEvents_def startTime_def endTime_def Let_def)

lemma compareEvents_total: "compareEvents dm a x y \<le> 0 \<or> compareEvents dm a y x \<le> 0"
  by (auto simp: compareEvents_le)

lemma compareEvents_trans:
  "compareEvents dm a x y \<le> 0 \<Longrightarrow> compareEvents dm a y z \<le> 0 \<Longrightarrow> compareEvents dm a x z \<le> 0"
  by (auto simp: compareEvents_le)

lemma sorted_sort':
  "sorted_wrt (\<lambda>x y. compareEvents dm a x y \<le> 0) (sort' dm a)"
  unfolding sort'_def
proof (rule sorted_array_sort)
  show "\<And>x y. compareEvents dm a x y \<le> 0 \<or> compareEvents dm a y x \<le> 0"
    by (rule compareEvents_total)
  show "\<And>x y z. compareEvents dm a x y \<le> 0 \<Longrightarrow> compareEvents dm a y z \<le> 0 \<Longrightarrow> compareEvents dm a x z \<le> 0"
    by (rule compareEvents_trans)
qed

lemma mset_sort': "mset (sort' dm a) = mset (events a)"
  by (simp add: sort'_def mset_array_sort)

lemma sort'_idem: "sort' dm (a\<lparr>events := sort' dm a\<rparr>) = sort' dm a"
proof -
  have "compareEvents dm (a\<lparr>events := sort' dm a\<rparr>) = compareEvents dm a"
    by (intro ext) (simp add: compareEvents_def Let_def)
  then show ?thesis
    using array_sort_sorted [OF sorted_sort' [of dm a]] by (simp add: sort'_def)
qed

lemma sort'_ordered:
  assumes "i < j" "j < length (sort' dm a)"
  shows "startTime dm a (sort' dm a ! i) \<le> startTime dm a (sort' dm a ! j)
       \<and> (startTime dm a (sort' dm a ! i) = startTime dm a (sort' dm a ! j)
            \<longrightarrow> endTime dm a (sort' dm a ! j) \<le> endTime dm a (sort' dm a ! i))"
proof -
  from sorted_sort' [of dm a] assms
  have "compareEvents dm a (sort' dm a ! i) (sort' dm a ! j) \<le> 0"
    by (simp add: sorted_wrt_iff_nth_less)
  then show ?thesis
    by (auto simp: compareEvents_le)
qed

lemma sorted_wrt_unique:
  assumes antisym: "\<And>x y. R x y \<Longrightarrow> R y x \<Longrightarrow> x = y"
  shows "sorted_wrt R xs \<Longrightarrow> sorted_wrt R ys \<Longrightarrow> mset xs = mset ys \<Longrightarrow> xs = ys"
proof (induction xs arbitrary: ys)
  case Nil
  then show ?case by simp
next
  case (Cons x xs)
  from Cons.prems(3) obtain y ys' where ys: "ys = y # ys'"
    by (cases ys) auto
  have "x \<in> set ys" using Cons.prems(3) by (metis list.set_intros(1) mset_eq_setD)
  moreover have "y \<in> set (x # xs)" using Cons.prems(3) ys by (metis list.set_intros(1) mset_eq_setD)
  ultimately have "x = y"
    using Cons.prems(1,2) ys antisym by auto
  with Cons ys show ?case by auto
qed

lemma sort'_times_unique:
  fixes dm :: "'d dateMath" and a b :: "('e, 'd) helperArgs"
  assumes "image_mset (timesOf dm a) (mset (events a)) = image_mset (timesOf dm b) (mset (events b))"
  shows "map (timesOf dm a) (sort' dm a) = map (timesOf dm b) (sort' dm b)"
proof (rule sorted_wrt_unique [where R = "\<lambda>p q. fst p < fst q \<or> (fst p = fst q \<and> snd q \<le> snd p)"])
  show "\<And>x y :: int \<times> int. fst x < fst y \<or> fst x = fst y \<and> snd y \<le> snd x \<Longrightarrow>
           fst y < fst x \<or> fst y = fst x \<and> snd x \<le> snd y \<Longrightarrow> x = y"
    by (auto simp: prod_eq_iff)
  have "sorted_wrt (\<lambda>p q. fst p < fst q \<or> (fst p = fst q \<and> snd q \<le> snd p)) (map (timesOf dm c) (sort' dm c))"
    for c :: "('e, 'd) helperArgs"
    using sorted_sort' [of dm c] by (simp add: sorted_wrt_map compareEvents_le timesOf_def)
  then show "sorted_wrt (\<lambda>p q. fst p < fst q \<or> (fst p = fst q \<and> snd q \<le> snd p)) (map (timesOf dm a) (sort' dm a))"
    and "sorted_wrt (\<lambda>p q. fst p < fst q \<or> (fst p = fst q \<and> snd q \<le> snd p)) (map (timesOf dm b) (sort' dm b))"
    by blast+
  show "mset (map (timesOf dm a) (sort' dm a)) = mset (map (timesOf dm b) (sort' dm b))"
    using assms by (simp add: mset_sort')
qed

lemma insertBy_map:
  assumes "\<And>x y. c x y = c' (f x) (f y)"
  shows "map f (insertBy c x xs) = insertBy c' (f x) (map f xs)"
  by (induction xs) (simp_all add: assms)

lemma array_sort_map:
  assumes "\<And>x y. c x y = c' (f x) (f y)"
  shows "map f (array_sort c xs) = array_sort c' (map f xs)"
  by (induction xs) (simp_all add: array_sort_def insertBy_map [of c c' f, OF assms])

lemma datesOf_sort':
  "map (datesOf a) (sort' dm a) = array_sort (compareDates dm) (map (datesOf a) (events a))"
  unfolding sort'_def
  by (rule array_sort_map) (simp add: compareEvents_def compareDates_def datesOf_def Let_def)

subsection \<open>Slots and the relationship classifier\<close>

lemma isSibling_slots:
  assumes "i < length (events a)" "j < length (events a)"
  shows "isSibling dm (Some i) (Some j) a \<longleftrightarrow> \<bar>startSlot dm a i - startSlot dm a j\<bar> < 30"
  using assms by (simp add: isSibling_def js_index_def js_nth_def getSlot_def startSlot_def)

lemma isChild_slots:
  assumes "p < length (events a)" "c < length (events a)"
  shows "isChild dm (Some p) (Some c) a \<longleftrightarrow>
           \<not> isSibling dm (Some p) (Some c) a \<and> startSlot dm a c < endSlot dm a p"
  using assms by (simp add: isChild_def js_index_def js_nth_def getSlot_def startSlot_def endSlot_def)

lemma isSibling_eval:
  "isSibling dm (Some i) (Some j) a =
     (i < length (events a) \<and> j < length (events a) \<and> \<bar>startSlot dm a i - startSlot dm a j\<bar> < 30)"
  by (auto simp: isSibling_def js_index_def js_nth_def getSlot_def startSlot_def)

lemma isChild_eval:
  "isChild dm (Some p) (Some c) a =
     (p < length (events a) \<and> c < length (events a) \<and> \<not> \<bar>startSlot dm a p - startSlot dm a c\<bar> < 30
      \<and> startSlot dm a c < endSlot dm a p)"
  by (auto simp: isChild_def isSibling_def js_index_def js_nth_def getSlot_def startSlot_def endSlot_def)

lemma getYStyles_slots:
  assumes "idx < length (events a)" and "totalMin a \<noteq> 0"
  shows "top' (getYStyles dm idx a) = Some (100 * rat_of_int (startSlot dm a idx) / rat_of_int (totalMin a))"
    and "height (getYStyles dm idx a)
           = Some (100 * (rat_of_int (max (endSlot dm a idx) (startSlot dm a idx + step a))
                          - rat_of_int (startSlot dm a idx)) / rat_of_int (totalMin a))"
  using assms
  by (simp_all add: getYStyles_def js_nth_def getSlot_def startSlot_def endSlot_def of_slot_def
      num_max_def num_add_def num_div_def num_mul_def num_sub_def Let_def max_def field_simps)

lemma getYStyles_floor:
  assumes "idx < length (events a)" and "0 < totalMin a"
  shows "\<exists>h. height (getYStyles dm idx a) = Some h
           \<and> 100 * rat_of_int (step a) / rat_of_int (totalMin a) \<le> h
           \<and> (0 \<le> step a \<longrightarrow> 0 \<le> h)"
proof -
  define s e where "s = startSlot dm a idx" and "e = max (endSlot dm a idx) (startSlot dm a idx + step a)"
  have h: "height (getYStyles dm idx a) = Some (100 * (rat_of_int e - rat_of_int s) / rat_of_int (totalMin a))"
    using getYStyles_slots(2) [OF assms(1), of dm] assms(2) by (simp add: s_def e_def)
  have "step a \<le> e - s"
    by (simp add: s_def e_def)
  then have "rat_of_int (step a) \<le> rat_of_int e - rat_of_int s"
    by (metis of_int_diff of_int_le_iff)
  then have 1: "100 * rat_of_int (step a) / rat_of_int (totalMin a)
          \<le> 100 * (rat_of_int e - rat_of_int s) / rat_of_int (totalMin a)"
    using assms(2) by (simp add: divide_le_cancel)
  have 2: "0 \<le> 100 * rat_of_int (step a) / rat_of_int (totalMin a)" if "0 \<le> step a"
    using that assms(2) by simp
  from h 1 2 show ?thesis
    by fastforce
qed

subsection \<open>The grouper\<close>

lemma getSiblings_loop_shape:
  "\<exists>k. getSiblings_loop dm idx n acc a = acc @ [Suc n ..< Suc n + k]
       \<and> (\<forall>j. Suc n \<le> j \<and> j < Suc n + k \<longrightarrow> isSibling dm (Some idx) (Some j) a)
       \<and> \<not> isSibling dm (Some idx) (Some (Suc n + k)) a"
proof (induction dm idx n acc a rule: getSiblings_loop.induct)
  case (1 dm idx nextIdx siblings a)
  show ?case
  proof (cases "isSibling dm (Some idx) (Some (Suc nextIdx)) a")
    case True
    from "1.IH" [OF True] obtain k where
      k: "getSiblings_loop dm idx (Suc nextIdx) (siblings @ [Suc nextIdx]) a
            = (siblings @ [Suc nextIdx]) @ [Suc (Suc nextIdx) ..< Suc (Suc nextIdx) + k]"
      and sib: "\<forall>j. Suc (Suc nextIdx) \<le> j \<and> j < Suc (Suc nextIdx) + k \<longrightarrow> isSibling dm (Some idx) (Some j) a"
      and stop: "\<not> isSibling dm (Some idx) (Some (Suc (Suc nextIdx) + k)) a"
      by blast
    have "getSiblings_loop dm idx nextIdx siblings a = siblings @ [Suc nextIdx ..< Suc nextIdx + Suc k]"
      using True k by (simp add: getSiblings_loop.simps [of dm idx nextIdx] upt_conv_Cons)
    moreover have "\<forall>j. Suc nextIdx \<le> j \<and> j < Suc nextIdx + Suc k \<longrightarrow> isSibling dm (Some idx) (Some j) a"
    proof (intro allI impI)
      fix j
      assume j: "Suc nextIdx \<le> j \<and> j < Suc nextIdx + Suc k"
      show "isSibling dm (Some idx) (Some j) a"
      proof (cases "j = Suc nextIdx")
        case True
        with \<open>isSibling dm (Some idx) (Some (Suc nextIdx)) a\<close> show ?thesis by simp
      next
        case False
        with j sib show ?thesis by simp
      qed
    qed
    moreover have "\<not> isSibling dm (Some idx) (Some (Suc nextIdx + Suc k)) a"
      using stop by simp
    ultimately show ?thesis by blast
  next
    case False
    then have "getSiblings_loop dm idx nextIdx siblings a = siblings @ [Suc nextIdx ..< Suc nextIdx + 0]"
      by (simp add: getSiblings_loop.simps [of dm idx nextIdx])
    with False show ?thesis
      by (intro exI [of _ 0]) auto
  qed
qed

lemma getSiblings_shape:
  "getSiblings dm idx a = [Suc idx ..< Suc idx + length (getSiblings dm idx a)]
   \<and> (\<forall>j \<in> set (getSiblings dm idx a). isSibling dm (Some idx) (Some j) a)
   \<and> \<not> isSibling dm (Some idx) (Some (Suc idx + length (getSiblings dm idx a))) a"
proof -
  from getSiblings_loop_shape [of dm idx idx "[]" a] obtain k where
    k: "getSiblings dm idx a = [Suc idx ..< Suc idx + k]"
    and sib: "\<forall>j. Suc idx \<le> j \<and> j < Suc idx + k \<longrightarrow> isSibling dm (Some idx) (Some j) a"
    and stop: "\<not> isSibling dm (Some idx) (Some (Suc idx + k)) a"
    by (auto simp: getSiblings_def)
  from k have "length (getSiblings dm idx a) = k" by simp
  with k sib stop show ?thesis by auto
qed

lemma getSiblings_consecutive:
  "getSiblings dm idx a = [Suc idx ..< Suc idx + length (getSiblings dm idx a)]"
  using getSiblings_shape [of dm idx a] by blast

lemma getSiblings_bound:
  assumes "idx < length (events a)"
  shows "idx + length (getSiblings dm idx a) < length (events a)"
proof (cases "getSiblings dm idx a = []")
  case True
  with assms show ?thesis by simp
next
  case False
  define n where "n = length (getSiblings dm idx a)"
  from False have "0 < n" by (simp add: n_def)
  have "set (getSiblings dm idx a) = {Suc idx ..< Suc idx + n}"
    unfolding n_def by (subst getSiblings_consecutive) (simp only: set_upt)
  with \<open>0 < n\<close> have "idx + n \<in> set (getSiblings dm idx a)"
    by simp
  then have "isSibling dm (Some idx) (Some (idx + n)) a"
    using getSiblings_shape [of dm idx a] by blast
  then show ?thesis
    unfolding n_def by (rule isSibling_exists)
qed

lemma getChildGroups_inner_shape:
  "\<exists>k. getChildGroups_inner dm nx s g a = (g @ [Suc s ..< Suc s + k], Suc s + k)
       \<and> (\<forall>j. Suc s \<le> j \<and> j < Suc s + k \<longrightarrow> isSibling dm (Some nx) (Some j) a)"
proof (induction dm nx s g a rule: getChildGroups_inner.induct)
  case (1 dm nextIdx siblingIdx childGroup a)
  show ?case
  proof (cases "isSibling dm (Some nextIdx) (Some (Suc siblingIdx)) a")
    case True
    from "1.IH" [OF True] obtain k where
      k: "getChildGroups_inner dm nextIdx (Suc siblingIdx) (childGroup @ [Suc siblingIdx]) a
            = ((childGroup @ [Suc siblingIdx]) @ [Suc (Suc siblingIdx) ..< Suc (Suc siblingIdx) + k],
               Suc (Suc siblingIdx) + k)"
      and sib: "\<forall>j. Suc (Suc siblingIdx) \<le> j \<and> j < Suc (Suc siblingIdx) + k
                  \<longrightarrow> isSibling dm (Some nextIdx) (Some j) a"
      by blast
    have "getChildGroups_inner dm nextIdx siblingIdx childGroup a
            = (childGroup @ [Suc siblingIdx ..< Suc siblingIdx + Suc k], Suc siblingIdx + Suc k)"
      using True k by (simp add: getChildGroups_inner.simps [of dm nextIdx siblingIdx] upt_conv_Cons)
    moreover have "\<forall>j. Suc siblingIdx \<le> j \<and> j < Suc siblingIdx + Suc k
                  \<longrightarrow> isSibling dm (Some nextIdx) (Some j) a"
    proof (intro allI impI)
      fix j
      assume j: "Suc siblingIdx \<le> j \<and> j < Suc siblingIdx + Suc k"
      show "isSibling dm (Some nextIdx) (Some j) a"
      proof (cases "j = Suc siblingIdx")
        case True
        with \<open>isSibling dm (Some nextIdx) (Some (Suc siblingIdx)) a\<close> show ?thesis by simp
      next
        case False
        with j sib show ?thesis by simp
      qed
    qed
    ultimately show ?thesis by blast
  next
    case False
    then have "getChildGroups_inner dm nextIdx siblingIdx childGroup a
                 = (childGroup @ [Suc siblingIdx ..< Suc siblingIdx + 0], Suc siblingIdx + 0)"
      by (simp add: getChildGroups_inner.simps [of dm nextIdx siblingIdx])
    then show ?thesis
      by (intro exI [of _ 0]) auto
  qed
qed

lemma getChildGroups_inner_group:
  assumes "nx < length (events a)"
  shows "\<exists>len. 0 < len \<and> getChildGroups_inner dm nx nx [nx] a = ([nx ..< nx + len], nx + len)
           \<and> nx + len \<le> length (events a)"
proof -
  from getChildGroups_inner_shape [of dm nx nx "[nx]" a] obtain k where
    k: "getChildGroups_inner dm nx nx [nx] a = ([nx] @ [Suc nx ..< Suc nx + k], Suc nx + k)"
    and sib: "\<forall>j. Suc nx \<le> j \<and> j < Suc nx + k \<longrightarrow> isSibling dm (Some nx) (Some j) a"
    by blast
  have "[nx] @ [Suc nx ..< Suc nx + k] = [nx ..< nx + Suc k]"
    by (simp add: upt_conv_Cons)
  with k have 1: "getChildGroups_inner dm nx nx [nx] a = ([nx ..< nx + Suc k], nx + Suc k)"
    by simp
  have 2: "nx + Suc k \<le> length (events a)"
  proof (cases k)
    case 0
    with assms show ?thesis by simp
  next
    case (Suc k')
    with sib have "isSibling dm (Some nx) (Some (nx + k)) a" by simp
    then have "nx + k < length (events a)" by (rule isSibling_exists)
    then show ?thesis by simp
  qed
  from 1 2 show ?thesis by blast
qed

lemma getChildGroups_loop_shape:
  "\<exists>gs. childGroups (getChildGroups_loop dm idx n groups c a) = groups @ gs
        \<and> groupsFrom n gs
        \<and> (n \<le> length (events a) \<longrightarrow> n + length (concat gs) \<le> length (events a))"
proof (induction dm idx n groups c a rule: getChildGroups_loop.induct)
  case (1 dm idx nextIdx groups nbrOfColumns a)
  show ?case
  proof (cases "isChild dm (Some idx) (Some nextIdx) a")
    case True
    then have nx: "nextIdx < length (events a)" by (rule isChild_exists)
    from getChildGroups_inner_group [OF nx, of dm] obtain len where
      len: "0 < len" "getChildGroups_inner dm nextIdx nextIdx [nextIdx] a = ([nextIdx ..< nextIdx + len], nextIdx + len)"
        "nextIdx + len \<le> length (events a)"
      by blast
    from "1.IH" [OF True len(2) [symmetric]] obtain gs where
      gs: "childGroups (getChildGroups_loop dm idx (nextIdx + len) (groups @ [[nextIdx ..< nextIdx + len]])
              (max nbrOfColumns (length [nextIdx ..< nextIdx + len])) a)
            = (groups @ [[nextIdx ..< nextIdx + len]]) @ gs"
        "groupsFrom (nextIdx + len) gs"
        "nextIdx + len \<le> length (events a) \<longrightarrow> nextIdx + len + length (concat gs) \<le> length (events a)"
      by blast
    have "childGroups (getChildGroups_loop dm idx nextIdx groups nbrOfColumns a)
            = groups @ ([nextIdx ..< nextIdx + len] # gs)"
      using True len(2) gs(1) by (simp add: getChildGroups_loop.simps [of dm idx nextIdx])
    moreover have "groupsFrom nextIdx ([nextIdx ..< nextIdx + len] # gs)"
      using len(1) gs(2) by simp
    moreover have "nextIdx + length (concat ([nextIdx ..< nextIdx + len] # gs)) \<le> length (events a)"
      using len(3) gs(3) by simp
    ultimately show ?thesis by blast
  next
    case False
    then have "childGroups (getChildGroups_loop dm idx nextIdx groups nbrOfColumns a) = groups @ []"
      by (simp add: getChildGroups_loop.simps [of dm idx nextIdx])
    then show ?thesis
      by (intro exI [of _ "[]"]) simp
  qed
qed

lemma getChildGroups_shape:
  "groupsFrom n (childGroups (getChildGroups dm idx n a))
   \<and> (n \<le> length (events a) \<longrightarrow>
        n + length (concat (childGroups (getChildGroups dm idx n a))) \<le> length (events a))"
  using getChildGroups_loop_shape [of dm idx n "[]" 0 a] by (auto simp: getChildGroups_def)

lemma foldl_group_lengths:
  "foldl (\<lambda>total' group'. total' + length group') k gs = k + length (concat gs)"
  by (induction gs arbitrary: k) auto

lemma reparent_range:
  "reparent dm siblings group0 parentIdx siblingIdx a \<in> insert parentIdx (Some ` set siblings)"
proof (induction dm siblings group0 parentIdx siblingIdx a rule: reparent.induct)
  case (1 dm siblings group0 parentIdx siblingIdx a)
  show ?case
  proof (cases "isChild dm (js_nth siblings siblingIdx) group0 a")
    case True
    then have "js_nth siblings siblingIdx \<noteq> None"
      by (cases "js_nth siblings siblingIdx") (simp_all add: isChild_undefined)
    then have "js_nth siblings siblingIdx \<in> Some ` set siblings"
      by (auto simp: js_nth_def split: if_splits)
    with "1.IH" [OF True] True show ?thesis
      by (auto simp: reparent.simps [of dm siblings group0 parentIdx siblingIdx])
  next
    case False
    then show ?thesis
      by (simp add: reparent.simps [of dm siblings group0 parentIdx siblingIdx])
  qed
qed

lemma reparent_from:
  "reparent dm siblings group0 parentIdx j a =
     (let k = length (takeWhile (\<lambda>s. isChild dm (Some s) group0 a) (drop j siblings))
      in if k = 0 then parentIdx else Some (siblings ! (j + k - 1)))"
proof (induction dm siblings group0 parentIdx j a rule: reparent.induct)
  case (1 dm siblings group0 parentIdx siblingIdx a)
  show ?case
  proof (cases "siblingIdx < length siblings")
    case False
    then have "js_nth siblings siblingIdx = None"
      by (simp add: js_nth_def)
    with False show ?thesis
      by (simp add: reparent.simps [of dm siblings group0 parentIdx siblingIdx] isChild_undefined)
  next
    case True
    then have nth: "js_nth siblings siblingIdx = Some (siblings ! siblingIdx)"
      and drop: "drop siblingIdx siblings = siblings ! siblingIdx # drop (Suc siblingIdx) siblings"
      by (simp_all add: js_nth_def Cons_nth_drop_Suc)
    show ?thesis
    proof (cases "isChild dm (Some (siblings ! siblingIdx)) group0 a")
      case False
      with nth drop show ?thesis
        by (simp add: reparent.simps [of dm siblings group0 parentIdx siblingIdx])
    next
      case c: True
      with nth have "isChild dm (js_nth siblings siblingIdx) group0 a"
        by simp
      from "1.IH" [OF this] c nth drop show ?thesis
        by (simp add: reparent.simps [of dm siblings group0 parentIdx siblingIdx] Let_def)
    qed
  qed
qed

lemma reparent_takeWhile:
  "reparent dm siblings group0 (Some idx) 0 a =
     (let k = length (takeWhile (\<lambda>s. isChild dm (Some s) group0 a) siblings)
      in if k = 0 then Some idx else Some (siblings ! (k - 1)))"
  using reparent_from [of dm siblings group0 "Some idx" 0 a] by simp


subsection \<open>The driver never throws\<close>

lemma styledUpTo_snoc:
  assumes "styledUpTo dm a k st"
  shows "styledUpTo dm a (Suc k)
           \<lparr>meta = m,
            styledEvents = js_assign (styledEvents st) k
              \<lparr>event = Some (events a ! k),
               style = \<lparr>top' = top' (getYStyles dm k a), height = height (getYStyles dm k a),
                        width = w, xOffset = x\<rparr>\<rparr>\<rparr>"
proof -
  from assms have len: "length (styledEvents st) = k"
    by (simp add: styledUpTo_def)
  then have "js_assign (styledEvents st) k
              \<lparr>event = Some (events a ! k),
               style = \<lparr>top' = top' (getYStyles dm k a), height = height (getYStyles dm k a),
                        width = w, xOffset = x\<rparr>\<rparr>
             = styledEvents st @ [Some \<lparr>event = Some (events a ! k),
               style = \<lparr>top' = top' (getYStyles dm k a), height = height (getYStyles dm k a),
                        width = w, xOffset = x\<rparr>\<rparr>]"
    using js_assign_end [of "styledEvents st"] by simp
  with assms len show ?thesis
    by (auto simp: styledUpTo_def nth_append less_Suc_eq)
qed

lemma setTopLevelStyle_step:
  assumes "styledUpTo dm a k st" and "k < length (events a)"
  shows "\<exists>st'. setTopLevelStyle dm a siblings k siblingIdx st = Inr st' \<and> styledUpTo dm a (Suc k) st'"
  using assms(2) styledUpTo_snoc [OF assms(1)]
  by (simp add: setTopLevelStyle_def js_nth_in_range Let_def)

lemma setChildStyle_step:
  assumes "styledUpTo dm a k st" and "k < length (events a)" and "p < k"
  shows "\<exists>st'. setChildStyle dm a group' groupIndex (Some p) k i st = Inr st' \<and> styledUpTo dm a (Suc k) st'"
proof -
  from assms(1,3) obtain w x where
    "styledEvents st ! p = Some \<lparr>event = Some (events a ! p),
         style = \<lparr>top' = top' (getYStyles dm p a), height = height (getYStyles dm p a),
                  width = w, xOffset = x\<rparr>\<rparr>"
    and "p < length (styledEvents st)"
    by (auto simp: styledUpTo_def)
  then have "js_index (styledEvents st) (Some p) = Some (Some \<lparr>event = Some (events a ! p),
         style = \<lparr>top' = top' (getYStyles dm p a), height = height (getYStyles dm p a),
                  width = w, xOffset = x\<rparr>\<rparr>)"
    by (simp add: js_index_def js_nth_def)
  with assms(2) styledUpTo_snoc [OF assms(1)] show ?thesis
    by (simp add: setChildStyle_def js_nth_in_range Let_def)
qed

lemma topLevel_phase:
  assumes inv: "styledUpTo dm a idx st" and idx: "idx < length (events a)"
  shows "\<exists>st'. forEach (setTopLevelStyle dm a (getSiblings dm idx a)) (idx # getSiblings dm idx a) st = Inr st'
           \<and> styledUpTo dm a (Suc (idx + length (getSiblings dm idx a))) st'"
proof -
  define n where "n = length (getSiblings dm idx a)"
  have run: "idx # getSiblings dm idx a = [idx ..< Suc idx + n]"
    unfolding n_def by (subst getSiblings_consecutive) (simp add: upt_conv_Cons del: upt_Suc)
  have bound: "idx + n < length (events a)"
    unfolding n_def using idx by (rule getSiblings_bound)
  have "\<exists>st'. forEachFrom (setTopLevelStyle dm a (getSiblings dm idx a)) [idx ..< Suc idx + n] 0 st = Inr st'
           \<and> styledUpTo dm a (idx + (0 + length [idx ..< Suc idx + n])) st'"
  proof (rule forEachFrom_rule [where I = "\<lambda>k. styledUpTo dm a (idx + k)"])
    show "styledUpTo dm a (idx + 0) st" using inv by simp
  next
    fix k s
    assume k: "k < length [idx ..< Suc idx + n]" and s: "styledUpTo dm a (idx + (0 + k)) s"
    from k have nth: "[idx ..< Suc idx + n] ! k = idx + k" and "idx + k < length (events a)"
      using bound by (simp_all del: upt_Suc)
    with s setTopLevelStyle_step [of dm a "idx + k" s "getSiblings dm idx a" k]
    show "\<exists>s'. setTopLevelStyle dm a (getSiblings dm idx a) ([idx ..< Suc idx + n] ! k) (0 + k) s = Inr s'
             \<and> styledUpTo dm a (idx + Suc (0 + k)) s'"
      by (simp del: upt_Suc)
  qed
  then show ?thesis
    by (simp add: forEach_def run n_def del: upt_Suc)
qed

lemma childGroup_phase:
  assumes inv: "styledUpTo dm a b st" and g: "group' = [b ..< b + length group']"
    and bound: "b + length group' \<le> length (events a)"
    and parent: "idx + length siblings < b" "set siblings \<subseteq> {idx ..< Suc (idx + length siblings)}"
  shows "\<exists>st'. setChildGroupStyles dm a idx siblings group' groupIndex st = Inr st'
           \<and> styledUpTo dm a (b + length group') st'"
proof -
  define parentIdx where "parentIdx = reparent dm siblings (js_nth group' 0) (Some idx) 0 a"
  have "parentIdx \<in> insert (Some idx) (Some ` set siblings)"
    unfolding parentIdx_def by (rule reparent_range)
  with parent obtain p where p: "parentIdx = Some p" "p < b"
    by auto
  have nth: "group' ! k = b + k" if "k < length group'" for k
  proof -
    have "group' ! k = [b ..< b + length group'] ! k"
      using g by simp
    with that show ?thesis by simp
  qed
  have "\<exists>st'. forEachFrom (setChildStyle dm a group' groupIndex (Some p)) group' 0 st = Inr st'
           \<and> styledUpTo dm a (b + (0 + length group')) st'"
  proof (rule forEachFrom_rule [where I = "\<lambda>k. styledUpTo dm a (b + k)"])
    show "styledUpTo dm a (b + 0) st" using inv by simp
  next
    fix k s
    assume k: "k < length group'" and s: "styledUpTo dm a (b + (0 + k)) s"
    from k have "b + k < length (events a)"
      using bound by simp
    with s p(2) k nth [OF k] setChildStyle_step [of dm a "b + k" s p group' groupIndex k]
    show "\<exists>s'. setChildStyle dm a group' groupIndex (Some p) (group' ! k) (0 + k) s = Inr s'
             \<and> styledUpTo dm a (b + Suc (0 + k)) s'"
      by simp
  qed
  then show ?thesis
    using p(1) by (simp add: setChildGroupStyles_def forEach_def Let_def flip: parentIdx_def)
qed

lemma childGroups_phase:
  assumes "styledUpTo dm a n st" and "groupsFrom n gs"
    and "n + length (concat gs) \<le> length (events a)"
    and "idx + length siblings < n" and "set siblings \<subseteq> {idx ..< Suc (idx + length siblings)}"
  shows "\<exists>st'. forEachFrom (setChildGroupStyles dm a idx siblings) gs i0 st = Inr st'
           \<and> styledUpTo dm a (n + length (concat gs)) st'"
  using assms
proof (induction gs arbitrary: n i0 st)
  case Nil
  then show ?case by simp
next
  case (Cons g gs)
  from Cons.prems(2) have g: "g = [n ..< n + length g]" and rest: "groupsFrom (n + length g) gs"
    by simp_all
  from Cons.prems(3) have b: "n + length g \<le> length (events a)"
    by simp
  from childGroup_phase [OF Cons.prems(1) g b Cons.prems(4,5), of i0] obtain st1 where
    st1: "setChildGroupStyles dm a idx siblings g i0 st = Inr st1" "styledUpTo dm a (n + length g) st1"
    by blast
  have "\<exists>st'. forEachFrom (setChildGroupStyles dm a idx siblings) gs (Suc i0) st1 = Inr st'
           \<and> styledUpTo dm a (n + length g + length (concat gs)) st'"
    using st1(2) rest Cons.prems(3,4,5) by (intro Cons.IH) simp_all
  with st1(1) show ?case
    by (simp add: add.assoc)
qed

lemma layout_loop_step:
  assumes "idx < length (events a)"
    and "forEach (setTopLevelStyle dm a (getSiblings dm idx a)) (idx # getSiblings dm idx a) st = Inr st1"
    and "forEach (setChildGroupStyles dm a idx (getSiblings dm idx a))
           (childGroups (getChildGroups dm idx (idx + length (getSiblings dm idx a) + 1) a)) st1 = Inr st2"
  shows "layout_loop dm a idx st
           = layout_loop dm a
               (idx + (1 + length (getSiblings dm idx a)
                       + foldl (\<lambda>total' group'. total' + length group') 0
                           (childGroups (getChildGroups dm idx (idx + length (getSiblings dm idx a) + 1) a))))
               st2"
  using assms by (subst layout_loop.simps) (simp add: Let_def)

lemma layout_loop_total:
  "styledUpTo dm a idx st \<Longrightarrow> idx \<le> length (events a) \<Longrightarrow>
     \<exists>st'. layout_loop dm a idx st = Inr st' \<and> styledUpTo dm a (length (events a)) st'"
proof (induction dm a idx st rule: layout_loop.induct)
  case (1 dm a idx st)
  show ?case
  proof (cases "idx < length (events a)")
    case False
    then have "layout_loop dm a idx st = Inr st"
      by (simp add: layout_loop.simps [of dm a idx])
    with False "1.prems" show ?thesis
      by auto
  next
    case True
    define siblings where "siblings = getSiblings dm idx a"
    define cg where "cg = childGroups (getChildGroups dm idx (idx + length siblings + 1) a)"
    have sb: "idx + length siblings < length (events a)"
      unfolding siblings_def using True by (rule getSiblings_bound)
    have sibs: "set siblings \<subseteq> {idx ..< Suc (idx + length siblings)}"
      unfolding siblings_def by (subst getSiblings_consecutive) auto
    from topLevel_phase [OF "1.prems"(1) True] obtain st1 where
      st1: "forEach (setTopLevelStyle dm a siblings) (idx # siblings) st = Inr st1"
        "styledUpTo dm a (Suc (idx + length siblings)) st1"
      by (auto simp: siblings_def)
    have shape: "groupsFrom (Suc (idx + length siblings)) cg"
      "Suc (idx + length siblings) + length (concat cg) \<le> length (events a)"
      using getChildGroups_shape [of "idx + length siblings + 1" dm idx a] sb
      by (simp_all add: cg_def)
    from childGroups_phase [OF st1(2) shape _ sibs, of 0] obtain st2 where
      st2: "forEach (setChildGroupStyles dm a idx siblings) cg st1 = Inr st2"
        "styledUpTo dm a (Suc (idx + length siblings) + length (concat cg)) st2"
      by (auto simp: forEach_def)
    define nxt where
      "nxt = idx + (1 + length siblings + foldl (\<lambda>total' group'. total' + length group') 0 cg)"
    have nxt: "nxt = Suc (idx + length siblings) + length (concat cg)"
      by (simp add: nxt_def foldl_group_lengths)
    have "styledUpTo dm a nxt st2" and "nxt \<le> length (events a)"
      using st2(2) shape(2) by (simp_all only: nxt)
    with "1.IH" [OF True siblings_def cg_def st1(1) st2(1)]
    obtain st' where "layout_loop dm a nxt st2 = Inr st'" "styledUpTo dm a (length (events a)) st'"
      unfolding nxt_def by blast
    moreover have "layout_loop dm a idx st = layout_loop dm a nxt st2"
      using layout_loop_step [OF True st1(1) [unfolded siblings_def] st2(1) [unfolded cg_def siblings_def]]
      by (simp only: nxt_def cg_def siblings_def)
    ultimately show ?thesis
      by simp
  qed
qed

lemma getStyledEvents_total:
  "\<exists>out. getStyledEvents dm a m = Inr out
     \<and> eventsAfter out = sort' dm a
     \<and> styledUpTo dm (a\<lparr>events := sort' dm a\<rparr>) (length (events a))
          \<lparr>meta = metaAfter out, styledEvents = returned out\<rparr>"
proof -
  have "styledUpTo dm (a\<lparr>events := sort' dm a\<rparr>) 0 \<lparr>meta = m, styledEvents = []\<rparr>"
    by (simp add: styledUpTo_def)
  from layout_loop_total [OF this] obtain st' where
    "layout_loop dm (a\<lparr>events := sort' dm a\<rparr>) 0 \<lparr>meta = m, styledEvents = []\<rparr> = Inr st'"
    "styledUpTo dm (a\<lparr>events := sort' dm a\<rparr>) (length (sort' dm a)) st'"
    by auto
  moreover have "length (sort' dm a) = length (events a)"
    using mset_sort' [of dm a] by (rule mset_eq_length)
  ultimately show ?thesis
    by (simp add: getStyledEvents_def Let_def styledUpTo_def)
qed

lemma returned_entries:
  assumes "getStyledEvents dm a m = Inr out" and "i < length (events a)"
  shows "length (returned out) = length (events a)"
    and "\<exists>w x. returned out ! i =
            Some \<lparr>event = Some (sort' dm a ! i),
                  style = \<lparr>top' = top' (getYStyles dm i (a\<lparr>events := sort' dm a\<rparr>)),
                           height = height (getYStyles dm i (a\<lparr>events := sort' dm a\<rparr>)),
                           width = w, xOffset = x\<rparr>\<rparr>"
  using getStyledEvents_total [of dm a m] assms by (auto simp: styledUpTo_def)

lemma getStyledEvents_Inr:
  assumes "getStyledEvents dm a m = Inr out"
  shows "\<exists>st. layout_loop dm (a\<lparr>events := sort' dm a\<rparr>) 0 \<lparr>meta = m, styledEvents = []\<rparr> = Inr st
           \<and> returned out = styledEvents st \<and> eventsAfter out = sort' dm a \<and> metaAfter out = meta st"
  using assms by (auto simp: getStyledEvents_def Let_def split: sum.splits)

subsection \<open>The styles set by the two phases\<close>

lemma setTopLevelStyle_result:
  assumes "eventIdx < length (events a)" and "k \<le> length siblings"
  shows "setTopLevelStyle dm a siblings eventIdx k st =
     Inr \<lparr>meta = (if siblings \<noteq> []
                  then (meta st)(events a ! eventIdx := (meta st (events a ! eventIdx))
                         \<lparr>overlappingCount := Some (Suc (length siblings)),
                          groupStart := Some (k = 0),
                          groupEnd := Some (k = length siblings)\<rparr>)
                  else meta st),
          styledEvents = js_assign (styledEvents st) eventIdx
            \<lparr>event = Some (events a ! eventIdx),
             style = \<lparr>top' = top' (getYStyles dm eventIdx a), height = height (getYStyles dm eventIdx a),
                      width = Some (100 / of_nat (Suc (length siblings))),
                      xOffset = Some (of_nat k * (100 / of_nat (Suc (length siblings))))\<rparr>\<rparr>\<rparr>"
proof (cases "siblings = []")
  case True
  with assms show ?thesis
    by (simp add: setTopLevelStyle_def js_nth_in_range Let_def)
next
  case False
  with assms show ?thesis
    by (simp add: setTopLevelStyle_def js_nth_in_range Let_def num_div_def num_mul_def isFirstSibling_def
        ac_simps del: of_nat_Suc)
qed

lemma topLevel_styles:
  fixes dm :: "'d dateMath" and a :: "('e, 'd) helperArgs" and idx n :: nat
  assumes idx: "idx < length (events a)"
  defines "n \<equiv> Suc (length (getSiblings dm idx a))"
  shows "\<exists>st'. forEach (setTopLevelStyle dm a (getSiblings dm idx a)) (idx # getSiblings dm idx a) st = Inr st'
     \<and> (\<forall>k < n. \<exists>t h.
          js_nth (styledEvents st') ((idx # getSiblings dm idx a) ! k)
            = Some (Some \<lparr>event = Some (events a ! ((idx # getSiblings dm idx a) ! k)),
                          style = \<lparr>top' = t, height = h, width = Some (100 / of_nat n),
                                   xOffset = Some (of_nat k * (100 / of_nat n))\<rparr>\<rparr>)
          \<and> (2 \<le> n \<longrightarrow> overlappingCount (meta st' (events a ! ((idx # getSiblings dm idx a) ! k))) = Some n))
     \<and> (n = 1 \<longrightarrow> meta st' = meta st
          \<and> (\<exists>ev t h. js_nth (styledEvents st') idx
                = Some (Some \<lparr>event = ev, style = \<lparr>top' = t, height = h, width = Some 100, xOffset = Some 0\<rparr>\<rparr>)))"
proof -
  define sibs where "sibs = getSiblings dm idx a"
  have n: "n = Suc (length sibs)"
    by (simp add: n_def sibs_def)
  have run: "idx # sibs = [idx ..< idx + n]"
    unfolding n sibs_def by (subst getSiblings_consecutive) (simp add: upt_conv_Cons del: upt_Suc)
  have bound: "idx + n \<le> length (events a)"
    using getSiblings_bound [OF idx, of dm] by (simp add: n sibs_def)
  have nth: "(idx # sibs) ! k = idx + k" if "k < n" for k
    using that by (simp only: run nth_upt)
  define entry where "entry k t h = \<lparr>event = Some (events a ! (idx + k)),
       style = \<lparr>top' = t, height = h, width = Some (100 / of_nat n),
                xOffset = Some (of_nat k * (100 / of_nat n))\<rparr>\<rparr>" for k :: nat and t h :: jsnum
  define I where "I k s \<longleftrightarrow>
      (\<forall>j<k. (\<exists>t h. js_nth (styledEvents s) (idx + j) = Some (Some (entry j t h)))
               \<and> (2 \<le> n \<longrightarrow> overlappingCount (meta s (events a ! (idx + j))) = Some n))
      \<and> (n = 1 \<longrightarrow> meta s = meta st)" for k and s :: "'e layout"
  have "\<exists>st'. forEachFrom (setTopLevelStyle dm a sibs) (idx # sibs) 0 st = Inr st'
          \<and> I (0 + length (idx # sibs)) st'"
  proof (rule forEachFrom_rule)
    show "I 0 st" by (simp add: I_def)
  next
    fix k s
    assume k: "k < length (idx # sibs)" and inv: "I (0 + k) s"
    from k have kn: "k < n" "k \<le> length sibs" "idx + k < length (events a)"
      using bound by (simp_all add: n)
    have prev: "(\<exists>t h. js_nth (styledEvents s) (idx + j) = Some (Some (entry j t h)))
               \<and> (2 \<le> n \<longrightarrow> overlappingCount (meta s (events a ! (idx + j))) = Some n)"
      if "j < k" for j
      using inv that by (simp add: I_def)
    define s' where "s' = \<lparr>meta = (if sibs \<noteq> []
                  then (meta s)(events a ! (idx + k) := (meta s (events a ! (idx + k)))
                         \<lparr>overlappingCount := Some (Suc (length sibs)),
                          groupStart := Some (k = 0),
                          groupEnd := Some (k = length sibs)\<rparr>)
                  else meta s),
          styledEvents = js_assign (styledEvents s) (idx + k)
            (entry k (top' (getYStyles dm (idx + k) a)) (height (getYStyles dm (idx + k) a)))\<rparr>"
    have res: "setTopLevelStyle dm a sibs ((idx # sibs) ! k) (0 + k) s = Inr s'"
      using setTopLevelStyle_result [OF kn(3) kn(2), of dm s] nth [OF kn(1)]
      by (simp add: s'_def entry_def n)
    have "I (Suc (0 + k)) s'"
      unfolding I_def
    proof (intro conjI allI impI)
      fix j
      assume j: "j < Suc (0 + k)"
      show "\<exists>t h. js_nth (styledEvents s') (idx + j) = Some (Some (entry j t h))"
      proof (cases "j = k")
        case True
        then show ?thesis
          by (auto simp: s'_def js_nth_js_assign_same)
      next
        case False
        with j have "j < k" by simp
        from prev [OF this] obtain t h where "js_nth (styledEvents s) (idx + j) = Some (Some (entry j t h))"
          by blast
        with False have "js_nth (styledEvents s') (idx + j) = Some (Some (entry j t h))"
          by (simp add: s'_def js_nth_js_assign_other)
        then show ?thesis by blast
      qed
    next
      fix j
      assume j: "j < Suc (0 + k)" and n2: "2 \<le> n"
      then have ne: "sibs \<noteq> []" by (auto simp: n)
      show "overlappingCount (meta s' (events a ! (idx + j))) = Some n"
      proof (cases "events a ! (idx + j) = events a ! (idx + k)")
        case True
        with ne show ?thesis by (simp add: s'_def n)
      next
        case False
        then have "j \<noteq> k" by auto
        with j have "j < k" by simp
        from prev [OF this] n2 have "overlappingCount (meta s (events a ! (idx + j))) = Some n"
          by blast
        with False ne show ?thesis by (simp add: s'_def)
      qed
    next
      assume "n = 1"
      then have "sibs = []" by (simp add: n)
      moreover from inv \<open>n = 1\<close> have "meta s = meta st" by (simp add: I_def)
      ultimately show "meta s' = meta st" by (simp add: s'_def)
    qed
    with res show "\<exists>s'. setTopLevelStyle dm a sibs ((idx # sibs) ! k) (0 + k) s = Inr s' \<and> I (Suc (0 + k)) s'"
      by blast
  qed
  then obtain st' where st': "forEach (setTopLevelStyle dm a sibs) (idx # sibs) st = Inr st'" and fin: "I n st'"
    by (auto simp: forEach_def n)
  have "\<forall>k < n. \<exists>t h.
          js_nth (styledEvents st') ((idx # sibs) ! k)
            = Some (Some \<lparr>event = Some (events a ! ((idx # sibs) ! k)),
                          style = \<lparr>top' = t, height = h, width = Some (100 / of_nat n),
                                   xOffset = Some (of_nat k * (100 / of_nat n))\<rparr>\<rparr>)
          \<and> (2 \<le> n \<longrightarrow> overlappingCount (meta st' (events a ! ((idx # sibs) ! k))) = Some n)"
  proof (intro allI impI)
    fix k
    assume k: "k < n"
    with fin obtain t h where "js_nth (styledEvents st') (idx + k) = Some (Some (entry k t h))"
      and "2 \<le> n \<longrightarrow> overlappingCount (meta st' (events a ! (idx + k))) = Some n"
      by (auto simp: I_def)
    then show "\<exists>t h.
          js_nth (styledEvents st') ((idx # sibs) ! k)
            = Some (Some \<lparr>event = Some (events a ! ((idx # sibs) ! k)),
                          style = \<lparr>top' = t, height = h, width = Some (100 / of_nat n),
                                   xOffset = Some (of_nat k * (100 / of_nat n))\<rparr>\<rparr>)
          \<and> (2 \<le> n \<longrightarrow> overlappingCount (meta st' (events a ! ((idx # sibs) ! k))) = Some n)"
      unfolding nth [OF k] entry_def by blast
  qed
  moreover have "meta st' = meta st
          \<and> (\<exists>ev t h. js_nth (styledEvents st') idx
                = Some (Some \<lparr>event = ev, style = \<lparr>top' = t, height = h, width = Some 100, xOffset = Some 0\<rparr>\<rparr>))"
    if "n = 1"
  proof -
    from fin that obtain t h where "js_nth (styledEvents st') (idx + 0) = Some (Some (entry 0 t h))"
      and "meta st' = meta st"
      by (auto simp: I_def)
    with that show ?thesis
      by (auto simp: entry_def)
  qed
  ultimately show ?thesis
    using st' unfolding sibs_def by blast
qed

lemma setChildStyle_result:
  assumes parent: "js_index (styledEvents st) parentIdx = Some (Some parent)"
    and pw: "width (style parent) = Some pw" and px: "xOffset (style parent) = Some px"
    and ev: "eventIdx < length (events a)" and ne: "group' \<noteq> []"
  shows "setChildStyle dm a group' groupIndex parentIdx eventIdx i st =
     Inr \<lparr>meta = (if length group' = 1 then meta st
                  else (meta st)(events a ! eventIdx := (meta st (events a ! eventIdx))
                         \<lparr>overlappingCount := Some (length group'),
                          groupNumber := Some (groupIndex + 1),
                          groupStart := Some (i = 0),
                          groupEnd := Some (i = length group' - 1)\<rparr>)),
          styledEvents = js_assign (styledEvents st) eventIdx
            \<lparr>event = Some (events a ! eventIdx),
             style = \<lparr>top' = top' (getYStyles dm eventIdx a), height = height (getYStyles dm eventIdx a),
                      width = Some (if length group' = 1 then 100 - 3 * of_nat (groupIndex + 1)
                                    else (pw - 3 * of_nat groupIndex) / of_nat (length group')
                                         - 3 / of_nat (length group')),
                      xOffset = Some (if length group' = 1 then 3 * of_nat (groupIndex + 1)
                                      else px + ((pw - 3 * of_nat groupIndex) / of_nat (length group')
                                                 - 3 / of_nat (length group')) * of_nat i
                                           + 3 * of_nat (groupIndex + 1))\<rparr>\<rparr>\<rparr>"
proof (cases "length group' = 1")
  case True
  with assms show ?thesis
    by (simp add: setChildStyle_def js_nth_in_range Let_def isOnlyNestedElement_def num_sub_def)
next
  case False
  with ne have "int i = int (length group') - 1 \<longleftrightarrow> i = length group' - 1"
    by (cases group') auto
  with False assms show ?thesis
    by (simp add: setChildStyle_def js_nth_in_range Let_def isOnlyNestedElement_def
        num_sub_def num_div_def num_mul_def num_add_def)
qed

subsection \<open>Styles depend on the slots only\<close>

text \<open>
  The clock is read by \<open>dates.merge\<close> only for a date that is \<open>null\<close>; when the
  dates are present the slots are those of any other clock.
\<close>

lemma dates_merge_clock:
  "\<not> isNull dm date \<Longrightarrow> \<not> isNull dm time \<Longrightarrow>
     dates_merge (dm\<lparr>newDate := c\<rparr>) date time = dates_merge dm date time"
  by (simp add: dates_merge_def Let_def)

lemma dates_diff_clock: "dates_diff (dm\<lparr>newDate := c\<rparr>) x y = dates_diff dm x y"
  by (simp add: dates_diff_def Let_def)

lemma positionFromDate_clock:
  "\<not> isNull dm date \<Longrightarrow> \<not> isNull dm mn \<Longrightarrow>
     positionFromDate (dm\<lparr>newDate := c\<rparr>) date mn T = positionFromDate dm date mn T"
  by (simp add: positionFromDate_def startsBefore_def dates_merge_clock dates_diff_clock Let_def)

lemma sort'_clock: "sort' (dm\<lparr>newDate := c\<rparr>) a = sort' dm a"
proof -
  have "compareEvents (dm\<lparr>newDate := c\<rparr>) a = compareEvents dm a"
    by (simp add: compareEvents_def fun_eq_iff Let_def)
  then show ?thesis
    by (simp add: sort'_def)
qed

lemma datesPresent_nth:
  assumes "datesPresent dm a" and "i < length (events a)"
  shows "\<not> isNull dm (startAccessor a (events a ! i))" and "\<not> isNull dm (endAccessor a (events a ! i))"
    and "\<not> isNull dm (min' a)"
  using assms by (simp_all add: datesPresent_def list_all_length)

lemma datesPresent_sorted:
  assumes "datesPresent dm a"
  shows "datesPresent dm (a\<lparr>events := sort' dm a\<rparr>)"
proof -
  have "set (sort' dm a) = set (events a)"
    using mset_sort' [of dm a] by (rule mset_eq_setD)
  with assms show ?thesis
    by (simp add: datesPresent_def list_all_iff)
qed

lemma sameDates_length: "sameDates a b \<Longrightarrow> length (events a) = length (events b)"
  by (auto simp: sameDates_def dest: map_eq_imp_length_eq)

lemma sameDates_nth:
  assumes "sameDates a b" and "i < length (events a)"
  shows "startAccessor a (events a ! i) = startAccessor b (events b ! i)"
    and "endAccessor a (events a ! i) = endAccessor b (events b ! i)"
proof -
  from assms have "map (datesOf a) (events a) ! i = map (datesOf b) (events b) ! i"
    by (simp add: sameDates_def)
  with assms sameDates_length [OF assms(1)]
  have "datesOf a (events a ! i) = datesOf b (events b ! i)"
    by simp
  then show "startAccessor a (events a ! i) = startAccessor b (events b ! i)"
    and "endAccessor a (events a ! i) = endAccessor b (events b ! i)"
    by (simp_all add: datesOf_def)
qed

lemma sameDates_sameSlots:
  assumes "sameDates a b" and "datesPresent dm a"
  shows "sameSlots (dm\<lparr>newDate := c\<rparr>) a (dm\<lparr>newDate := c'\<rparr>) b"
proof -
  have "startSlot (dm\<lparr>newDate := c\<rparr>) a i = startSlot (dm\<lparr>newDate := c'\<rparr>) b i
      \<and> endSlot (dm\<lparr>newDate := c\<rparr>) a i = endSlot (dm\<lparr>newDate := c'\<rparr>) b i"
    if "i < length (events a)" for i
  proof -
    note p = datesPresent_nth [OF assms(2) that]
    note d = sameDates_nth [OF assms(1) that]
    from assms(1) have m: "min' b = min' a" "totalMin b = totalMin a"
      by (simp_all add: sameDates_def)
    from p show ?thesis
      by (simp add: startSlot_def endSlot_def d [symmetric] m positionFromDate_clock)
  qed
  with assms(1) sameDates_length [OF assms(1)] show ?thesis
    by (simp add: sameSlots_def sameDates_def)
qed

lemma sameSlots_getSlot:
  assumes "sameSlots dm a dm' b"
  shows "getSlot dm (js_index (events a) i) (startAccessor a) (min' a) (totalMin a)
           = getSlot dm' (js_index (events b) i) (startAccessor b) (min' b) (totalMin b)"
    and "getSlot dm (js_index (events a) i) (endAccessor a) (min' a) (totalMin a)
           = getSlot dm' (js_index (events b) i) (endAccessor b) (min' b) (totalMin b)"
    and "js_index (events a) i = None \<longleftrightarrow> js_index (events b) i = None"
  using assms
  by (auto simp: getSlot_def js_index_def js_nth_def sameSlots_def startSlot_def endSlot_def
      split: option.splits)

lemma sameSlots_isSibling:
  assumes "sameSlots dm a dm' b"
  shows "isSibling dm i j a = isSibling dm' i j b"
  using sameSlots_getSlot(1) [OF assms] sameSlots_getSlot(3) [OF assms]
  by (simp add: isSibling_def)

lemma sameSlots_isChild:
  assumes "sameSlots dm a dm' b"
  shows "isChild dm i j a = isChild dm' i j b"
  using sameSlots_getSlot(1,2) [OF assms] sameSlots_isSibling [OF assms]
  by (simp add: isChild_def)

lemma sameSlots_getSiblings_loop:
  assumes "sameSlots dm a dm' b"
  shows "getSiblings_loop dm idx n acc a = getSiblings_loop dm' idx n acc b"
  using assms
proof (induction dm idx n acc a rule: getSiblings_loop.induct)
  case (1 dm idx nextIdx siblings a)
  show ?case
  proof (cases "isSibling dm (Some idx) (Some (Suc nextIdx)) a")
    case True
    with "1.IH" [OF True "1.prems"] sameSlots_isSibling [OF "1.prems", of "Some idx" "Some (Suc nextIdx)"]
    show ?thesis
      by (simp add: getSiblings_loop.simps [of dm idx nextIdx] getSiblings_loop.simps [of dm' idx nextIdx])
  next
    case False
    with sameSlots_isSibling [OF "1.prems", of "Some idx" "Some (Suc nextIdx)"]
    show ?thesis
      by (simp add: getSiblings_loop.simps [of dm idx nextIdx] getSiblings_loop.simps [of dm' idx nextIdx])
  qed
qed

lemma sameSlots_getSiblings:
  "sameSlots dm a dm' b \<Longrightarrow> getSiblings dm idx a = getSiblings dm' idx b"
  by (simp add: getSiblings_def sameSlots_getSiblings_loop)

lemma sameSlots_getChildGroups_inner:
  assumes "sameSlots dm a dm' b"
  shows "getChildGroups_inner dm nx s g a = getChildGroups_inner dm' nx s g b"
  using assms
proof (induction dm nx s g a rule: getChildGroups_inner.induct)
  case (1 dm nextIdx siblingIdx childGroup a)
  show ?case
  proof (cases "isSibling dm (Some nextIdx) (Some (Suc siblingIdx)) a")
    case True
    with "1.IH" [OF True "1.prems"] sameSlots_isSibling [OF "1.prems", of "Some nextIdx" "Some (Suc siblingIdx)"]
    show ?thesis
      by (simp add: getChildGroups_inner.simps [of dm nextIdx siblingIdx]
          getChildGroups_inner.simps [of dm' nextIdx siblingIdx])
  next
    case False
    with sameSlots_isSibling [OF "1.prems", of "Some nextIdx" "Some (Suc siblingIdx)"]
    show ?thesis
      by (simp add: getChildGroups_inner.simps [of dm nextIdx siblingIdx]
          getChildGroups_inner.simps [of dm' nextIdx siblingIdx])
  qed
qed

lemma sameSlots_getChildGroups_loop:
  assumes "sameSlots dm a dm' b"
  shows "getChildGroups_loop dm idx n groups c a = getChildGroups_loop dm' idx n groups c b"
  using assms
proof (induction dm idx n groups c a rule: getChildGroups_loop.induct)
  case (1 dm idx nextIdx groups nbrOfColumns a)
  note inner = sameSlots_getChildGroups_inner [OF "1.prems", of nextIdx nextIdx "[nextIdx]"]
  show ?case
  proof (cases "isChild dm (Some idx) (Some nextIdx) a")
    case True
    obtain g s where gs: "getChildGroups_inner dm nextIdx nextIdx [nextIdx] a = (g, s)"
      by (cases "getChildGroups_inner dm nextIdx nextIdx [nextIdx] a")
    from "1.IH" [OF True gs [symmetric] "1.prems"] True gs inner
      sameSlots_isChild [OF "1.prems", of "Some idx" "Some nextIdx"]
    show ?thesis
      by (simp add: getChildGroups_loop.simps [of dm idx nextIdx] getChildGroups_loop.simps [of dm' idx nextIdx])
  next
    case False
    with sameSlots_isChild [OF "1.prems", of "Some idx" "Some nextIdx"]
    show ?thesis
      by (simp add: getChildGroups_loop.simps [of dm idx nextIdx] getChildGroups_loop.simps [of dm' idx nextIdx])
  qed
qed

lemma sameSlots_getChildGroups:
  "sameSlots dm a dm' b \<Longrightarrow> getChildGroups dm idx n a = getChildGroups dm' idx n b"
  by (simp add: getChildGroups_def sameSlots_getChildGroups_loop)

lemma sameSlots_reparent:
  assumes "sameSlots dm a dm' b"
  shows "reparent dm siblings group0 parentIdx j a = reparent dm' siblings group0 parentIdx j b"
  using assms
proof (induction dm siblings group0 parentIdx j a rule: reparent.induct)
  case (1 dm siblings group0 parentIdx siblingIdx a)
  show ?case
  proof (cases "isChild dm (js_nth siblings siblingIdx) group0 a")
    case True
    with "1.IH" [OF True "1.prems"] sameSlots_isChild [OF "1.prems", of "js_nth siblings siblingIdx" group0]
    show ?thesis
      by (simp add: reparent.simps [of dm siblings group0 parentIdx siblingIdx]
          reparent.simps [of dm' siblings group0 parentIdx siblingIdx])
  next
    case False
    with sameSlots_isChild [OF "1.prems", of "js_nth siblings siblingIdx" group0]
    show ?thesis
      by (simp add: reparent.simps [of dm siblings group0 parentIdx siblingIdx]
          reparent.simps [of dm' siblings group0 parentIdx siblingIdx])
  qed
qed

lemma sameSlots_getYStyles:
  assumes "sameSlots dm a dm' b"
  shows "getYStyles dm idx a = getYStyles dm' idx b"
proof -
  have "js_nth (events a) idx = js_index (events a) (Some idx)" "js_nth (events b) idx = js_index (events b) (Some idx)"
    by (simp_all add: js_index_def)
  with sameSlots_getSlot(1,2) [OF assms, of "Some idx"] assms show ?thesis
    by (simp add: getYStyles_def sameSlots_def Let_def)
qed

lemma sameStyles_parent:
  assumes "sameStyles s t"
    and "js_index (styledEvents s) p = Some (Some ps)" and "js_index (styledEvents t) p = Some (Some pt)"
  shows "style ps = style pt"
proof -
  from assms(1) have "js_index (map (map_option style) (styledEvents s)) p
      = js_index (map (map_option style) (styledEvents t)) p"
    by (simp add: sameStyles_def)
  with assms(2,3) show ?thesis
    by (simp add: js_index_map)
qed

lemma sameStyles_setTopLevelStyle:
  assumes "sameSlots dm a dm' b" and "sameStyles s t"
    and "setTopLevelStyle dm a siblings x k s = Inr s'" and "setTopLevelStyle dm' b siblings x k t = Inr t'"
  shows "sameStyles s' t'"
  using assms(2,3,4) sameSlots_getYStyles [OF assms(1), of x]
  by (auto simp: setTopLevelStyle_def Let_def sameStyles_def map_js_assign
      split: if_splits option.splits)

lemma sameStyles_setChildStyle:
  assumes "sameSlots dm a dm' b" and "sameStyles s t"
    and "setChildStyle dm a group' gi p x i s = Inr s'" and "setChildStyle dm' b group' gi p x i t = Inr t'"
  shows "sameStyles s' t'"
proof -
  from assms(3) obtain ps where ps: "js_index (styledEvents s) p = Some (Some ps)"
    by (auto simp: setChildStyle_def split: option.splits)
  from assms(4) obtain pt where pt: "js_index (styledEvents t) p = Some (Some pt)"
    by (auto simp: setChildStyle_def split: option.splits)
  from sameStyles_parent [OF assms(2) ps pt] have "style ps = style pt" .
  with assms(2,3,4) ps pt sameSlots_getYStyles [OF assms(1), of x] show ?thesis
    by (auto simp: setChildStyle_def Let_def sameStyles_def map_js_assign
        split: if_splits option.splits)
qed

lemma sameStyles_setChildGroupStyles:
  assumes "sameSlots dm a dm' b" and "sameStyles s t"
    and "setChildGroupStyles dm a idx siblings g gi s = Inr s'"
    and "setChildGroupStyles dm' b idx siblings g gi t = Inr t'"
  shows "sameStyles s' t'"
proof -
  define p where "p = reparent dm siblings (js_nth g 0) (Some idx) 0 a"
  have pb: "reparent dm' siblings (js_nth g 0) (Some idx) 0 b = p"
    unfolding p_def by (rule sameSlots_reparent [OF assms(1), symmetric])
  from assms(3) have s: "forEachFrom (setChildStyle dm a g gi p) g 0 s = Inr s'"
    by (simp add: setChildGroupStyles_def forEach_def Let_def p_def)
  from assms(4) have t: "forEachFrom (setChildStyle dm' b g gi p) g 0 t = Inr t'"
    by (simp add: setChildGroupStyles_def forEach_def Let_def pb)
  show ?thesis
  proof (rule forEachFrom_related [where R = sameStyles, OF _ assms(2) s t])
    fix x i u u' v v'
    assume "sameStyles u v" "setChildStyle dm a g gi p x i u = Inr u'" "setChildStyle dm' b g gi p x i v = Inr v'"
    then show "sameStyles u' v'"
      by (rule sameStyles_setChildStyle [OF assms(1)])
  qed
qed

lemma sameStyles_layout_loop:
  fixes a :: "('e, 'd) helperArgs" and b :: "('f, 'd) helperArgs"
  shows "sameSlots dm a dm' b \<Longrightarrow> sameStyles s t \<Longrightarrow> layout_loop dm a idx s = Inr s' \<Longrightarrow>
     layout_loop dm' b idx t = Inr t' \<Longrightarrow> sameStyles s' t'"
proof (induction dm a idx s arbitrary: t rule: layout_loop.induct)
  case (1 dm a idx st)
  note sd = "1.prems"(1)
  have len: "length (events a) = length (events b)"
    using sd by (simp add: sameSlots_def)
  show ?case
  proof (cases "idx < length (events a)")
    case False
    with "1.prems" len show ?thesis
      by (simp add: layout_loop.simps [of dm a idx] layout_loop.simps [of dm' b idx])
  next
    case True
    then have Tb: "idx < length (events b)"
      using len by simp
    define siblings where "siblings = getSiblings dm idx a"
    define cg where "cg = childGroups (getChildGroups dm idx (idx + length siblings + 1) a)"
    have sb: "getSiblings dm' idx b = siblings"
      unfolding siblings_def by (rule sameSlots_getSiblings [OF sd, symmetric])
    have cb: "childGroups (getChildGroups dm' idx (idx + length siblings + 1) b) = cg"
      unfolding cg_def by (simp add: sameSlots_getChildGroups [OF sd])
    define nxt where
      "nxt = idx + (1 + length siblings + foldl (\<lambda>total' group'. total' + length group') 0 cg)"
    from "1.prems"(3) True obtain s1 s2 where
      s1: "forEach (setTopLevelStyle dm a siblings) (idx # siblings) st = Inr s1"
      and s2: "forEach (setChildGroupStyles dm a idx siblings) cg s1 = Inr s2"
      and s3: "layout_loop dm a nxt s2 = Inr s'"
      unfolding nxt_def cg_def siblings_def
      by (subst (asm) layout_loop.simps) (auto simp: Let_def split: sum.splits)
    from "1.prems"(4) Tb obtain t1 t2 where
      t1: "forEach (setTopLevelStyle dm' b siblings) (idx # siblings) t = Inr t1"
      and t2: "forEach (setChildGroupStyles dm' b idx siblings) cg t1 = Inr t2"
      and t3: "layout_loop dm' b nxt t2 = Inr t'"
      unfolding nxt_def cb [symmetric] sb [symmetric]
      by (subst (asm) layout_loop.simps) (auto simp: Let_def split: sum.splits)
    have r1: "sameStyles s1 t1"
    proof (rule forEachFrom_related [where R = sameStyles, OF _ "1.prems"(2) s1 [unfolded forEach_def] t1 [unfolded forEach_def]])
      fix x i u u' v v'
      assume "sameStyles u v" "setTopLevelStyle dm a siblings x i u = Inr u'"
        "setTopLevelStyle dm' b siblings x i v = Inr v'"
      then show "sameStyles u' v'"
        by (rule sameStyles_setTopLevelStyle [OF sd])
    qed
    have r2: "sameStyles s2 t2"
    proof (rule forEachFrom_related [where R = sameStyles, OF _ r1 s2 [unfolded forEach_def] t2 [unfolded forEach_def]])
      fix x i u u' v v'
      assume "sameStyles u v" "setChildGroupStyles dm a idx siblings x i u = Inr u'"
        "setChildGroupStyles dm' b idx siblings x i v = Inr v'"
      then show "sameStyles u' v'"
        by (rule sameStyles_setChildGroupStyles [OF sd])
    qed
    from "1.IH" [OF True siblings_def cg_def s1 s2 sd r2 s3 [unfolded nxt_def] t3 [unfolded nxt_def]]
    show ?thesis .
  qed
qed

lemma sameDates_sorted:
  assumes "sameDates a b"
  shows "sameDates (a\<lparr>events := sort' dm a\<rparr>) (b\<lparr>events := sort' dm b\<rparr>)"
proof -
  have "datesOf (a\<lparr>events := sort' dm a\<rparr>) = datesOf a" "datesOf (b\<lparr>events := sort' dm b\<rparr>) = datesOf b"
    by (simp_all add: datesOf_def fun_eq_iff)
  with assms datesOf_sort' [of a dm] datesOf_sort' [of b dm] show ?thesis
    by (simp add: sameDates_def)
qed

lemma sameDates_returned:
  assumes "sameDates a b" and "datesPresent dm a"
    and "getStyledEvents (dm\<lparr>newDate := c\<rparr>) a m = Inr out"
    and "getStyledEvents (dm\<lparr>newDate := c'\<rparr>) b m' = Inr out'"
  shows "map (map_option style) (returned out) = map (map_option style) (returned out')"
proof -
  from getStyledEvents_Inr [OF assms(3)] obtain s where
    s: "layout_loop (dm\<lparr>newDate := c\<rparr>) (a\<lparr>events := sort' dm a\<rparr>) 0 \<lparr>meta = m, styledEvents = []\<rparr> = Inr s"
      "returned out = styledEvents s"
    unfolding sort'_clock by blast
  from getStyledEvents_Inr [OF assms(4)] obtain t where
    t: "layout_loop (dm\<lparr>newDate := c'\<rparr>) (b\<lparr>events := sort' dm b\<rparr>) 0 \<lparr>meta = m', styledEvents = []\<rparr> = Inr t"
      "returned out' = styledEvents t"
    unfolding sort'_clock by blast
  have "sameStyles \<lparr>meta = m, styledEvents = []\<rparr> \<lparr>meta = m', styledEvents = []\<rparr>"
    by (simp add: sameStyles_def)
  from sameStyles_layout_loop [OF sameDates_sameSlots [OF sameDates_sorted [OF assms(1)] datesPresent_sorted [OF assms(2)]] this s(1) t(1)]
    s(2) t(2)
  show ?thesis
    by (simp add: sameStyles_def)
qed

subsection \<open>The example date library and events\<close>

lemma js_round_of_int: "js_round (rat_of_int n) = n"
  by (simp add: js_round_def floor_eq_iff)

lemma utc_merge_time:
  assumes "0 \<le> t" "t < 1440"
  shows "(let date1 = startOfDay utc (Some 0);
              date2 = setHours utc date1 (getHours utc (Some (t * 60000)));
              date3 = setMinutes utc date2 (getMinutes utc (Some (t * 60000)));
              date4 = setSeconds utc date3 (getSeconds utc (Some (t * 60000)))
          in setMilliseconds utc date4 (getMilliseconds utc (Some (t * 60000))))
         = Some (t * 60000)"
proof -
  define d where "d = t * 60000"
  have h: "getHours utc (Some d) = t div 60"
    using assms by (simp add: utc_def ms_def d_def)
  have m: "getMinutes utc (Some d) = t mod 60"
    using mult_mod_left [of t 60 60000] by (simp add: utc_def ms_def d_def)
  have d1: "startOfDay utc (Some 0) = Some 0"
    by (simp add: utc_def ms_def)
  have d2: "setHours utc (Some 0) (t div 60) = Some (t div 60 * 3600000)"
    by (simp add: utc_def ms_def)
  define q r where "q = t div 60" and "r = t mod 60"
  have "t = q * 60 + r"
    by (simp add: q_def r_def)
  then have "q * 3600000 + r * 60000 = d"
    by (simp add: d_def)
  moreover have "setMinutes utc (Some (q * 3600000)) r = Some (q * 3600000 + r * 60000)"
    by (simp add: utc_def ms_def)
  ultimately have d3: "setMinutes utc (Some (t div 60 * 3600000)) (t mod 60) = Some d"
    by (simp add: q_def r_def)
  have d4: "setSeconds utc (Some d) (getSeconds utc (Some d)) = Some d"
    by (simp add: utc_def ms_def)
  have d5: "setMilliseconds utc (Some d) (getMilliseconds utc (Some d)) = Some d"
    by (simp add: utc_def ms_def)
  show ?thesis
    unfolding d_def [symmetric] by (simp only: Let_def h m d1 d2 d3 d4 d5)
qed

lemma utc_clock_sel:
  "startOfDay (utc\<lparr>newDate := c\<rparr>) = startOfDay utc" "setHours (utc\<lparr>newDate := c\<rparr>) = setHours utc"
  "getHours (utc\<lparr>newDate := c\<rparr>) = getHours utc" "setMinutes (utc\<lparr>newDate := c\<rparr>) = setMinutes utc"
  "getMinutes (utc\<lparr>newDate := c\<rparr>) = getMinutes utc" "setSeconds (utc\<lparr>newDate := c\<rparr>) = setSeconds utc"
  "getSeconds (utc\<lparr>newDate := c\<rparr>) = getSeconds utc"
  "setMilliseconds (utc\<lparr>newDate := c\<rparr>) = setMilliseconds utc"
  "getMilliseconds (utc\<lparr>newDate := c\<rparr>) = getMilliseconds utc"
  "isNull (utc\<lparr>newDate := c\<rparr>) d = (d = None)" "newDate (utc\<lparr>newDate := c\<rparr>) = c"
  by (simp_all add: utc_def)

lemma utc_merge:
  assumes "0 \<le> t" "t < 1440"
  shows "dates_merge (utc\<lparr>newDate := c\<rparr>) (Some 0) (Some (t * 60000)) = Some (t * 60000)"
    and "dates_merge (utc\<lparr>newDate := Some (t * 60000)\<rparr>) (Some 0) None = Some (t * 60000)"
  using utc_merge_time [OF assms] by (simp_all only: dates_merge_def utc_clock_sel) simp_all

lemma utc_diff:
  assumes "0 \<le> t"
  shows "dates_diff (utc\<lparr>newDate := c\<rparr>) (Some 0) (Some (t * 60000)) = t"
proof -
  have "\<bar>rat_of_int (t * 60000) / 60000\<bar> = rat_of_int t"
    using assms by simp
  then show ?thesis
    using js_round_of_int [of t] by (simp add: dates_diff_def utc_def ms_def Let_def)
qed

lemma utc_slot:
  assumes "0 \<le> t" "t < 1440"
  shows "positionFromDate (utc\<lparr>newDate := c\<rparr>) (Some (t * 60000)) (Some 0) T = min t T"
    and "positionFromDate (utc\<lparr>newDate := Some (t * 60000)\<rparr>) None (Some 0) T = min t T"
proof -
  have lt: "\<not> ltMinutes (utc\<lparr>newDate := c'\<rparr>) (Some (t * 60000)) (Some 0)" for c'
    using assms by (simp add: utc_def ms_def)
  show "positionFromDate (utc\<lparr>newDate := c\<rparr>) (Some (t * 60000)) (Some 0) T = min t T"
    using lt [of c] utc_diff [OF assms(1), of c] utc_merge(1) [OF assms, of c]
    by (simp add: positionFromDate_def startsBefore_def Let_def)
  show "positionFromDate (utc\<lparr>newDate := Some (t * 60000)\<rparr>) None (Some 0) T = min t T"
    using lt [of "Some (t * 60000)"] utc_diff [OF assms(1), of "Some (t * 60000)"] utc_merge(2) [OF assms]
    by (simp add: positionFromDate_def startsBefore_def Let_def)
qed

lemma utc_at_own_clock: "utc\<lparr>newDate := Some 0\<rparr> = utc"
  by (simp add: utc_def)

lemma clock_slot:
  "0 \<le> h * 60 + m \<Longrightarrow> h * 60 + m < 1440 \<Longrightarrow>
     positionFromDate utc (clock h m) (clock 0 0) T = min (h * 60 + m) T"
  using utc_slot(1) [of "h * 60 + m" "Some 0" T] by (simp add: clock_def utc_at_own_clock)

lemma clock_slot_at:
  "0 \<le> h * 60 + m \<Longrightarrow> h * 60 + m < 1440 \<Longrightarrow>
     positionFromDate (utc\<lparr>newDate := c\<rparr>) (clock h m) (clock 0 0) T = min (h * 60 + m) T"
  using utc_slot(1) [of "h * 60 + m" c T] by (simp add: clock_def)

lemma clock_slot_null:
  "0 \<le> h * 60 + m \<Longrightarrow> h * 60 + m < 1440 \<Longrightarrow>
     positionFromDate (utc\<lparr>newDate := clock h m\<rparr>) None (clock 0 0) T = min (h * 60 + m) T"
  using utc_slot(2) [of "h * 60 + m" T] by (simp add: clock_def)

lemma utc_valueOf_clock: "valueOf (utc\<lparr>newDate := c\<rparr>) (clock h m) = (h * 60 + m) * 60000"
  "valueOf utc (clock h m) = (h * 60 + m) * 60000" "valueOf (utc\<lparr>newDate := c\<rparr>) None = 0"
  by (simp_all add: utc_def ms_def clock_def)

lemma day_sel:
  "events (day evs) = evs" "startAccessor (day evs) = (\<lambda>e. fst (snd e))"
  "endAccessor (day evs) = (\<lambda>e. snd (snd e))" "min' (day evs) = clock 0 0" "totalMin (day evs) = 1440"
  "step (day evs) = 30"
  by (simp_all add: day_def)

lemma threeStarts_slots:
  "startSlot utc threeStarts 0 = 540" "startSlot utc threeStarts (Suc 0) = 569"
  "startSlot utc threeStarts 2 = 570" "endSlot utc threeStarts 0 = 600"
  by (simp_all add: startSlot_def endSlot_def threeStarts_def day_sel clock_slot)

lemma sort'_sameStart:
  "sort' utc sameStart = [(2, clock 8 0, clock 8 30), (1, clock 9 0, clock 11 0), (0, clock 9 0, clock 10 0)]"
  by (simp add: sort'_def array_sort_def sameStart_def day_sel compareEvents_def utc_valueOf_clock)

lemma getSiblings_twoAtNine: "getSiblings utc 0 twoAtNine = [1]"
  by (simp add: getSiblings_def getSiblings_loop.simps isSibling_def js_index_def js_nth_def getSlot_def
      twoAtNine_def day_sel clock_slot)

lemma shortSibling_slots:
  "startSlot utc shortSibling 0 = 540" "startSlot utc shortSibling (Suc 0) = 545"
  "startSlot utc shortSibling 2 = 550" "startSlot utc shortSibling 3 = 600"
  "endSlot utc shortSibling 0 = 720" "endSlot utc shortSibling (Suc 0) = 560"
  "endSlot utc shortSibling 2 = 660" "endSlot utc shortSibling 3 = 630"
  "length (events shortSibling) = 4"
  by (simp_all add: startSlot_def endSlot_def shortSibling_def day_sel clock_slot)

subsection \<open>Three runs of the whole layout\<close>

text \<open>
  A single event from 09:00 to 10:00; two events that start at 09:00 and last one and two
  hours; a parent from 09:00 to 11:00 with a child from 09:45 to 10:15. The layout of each,
  computed from the definitions.
\<close>

lemmas run_simps =
  getStyledEvents_def sort'_def array_sort_def compareEvents_def layout_loop.simps
  getSiblings_def getSiblings_loop.simps getChildGroups_def getChildGroups_loop.simps
  getChildGroups_inner.simps reparent.simps forEach_def setTopLevelStyle_def setChildGroupStyles_def
  setChildStyle_def getYStyles_def getSlot_def js_assign_def js_nth_def js_index_def
  num_add_def num_sub_def num_mul_def num_div_def num_max_def of_slot_def
  isFirstSibling_def isOnlyNestedElement_def isSibling_def isChild_def
  day_sel clock_slot Let_def

lemma scenario_A:
  "map_sum id returned (getStyledEvents utc (day [(0, clock 9 0, clock 10 0)]) noMeta)
     = Inr [Some \<lparr>event = Some (0, clock 9 0, clock 10 0),
                   style = \<lparr>top' = Some (75 / 2), height = Some (25 / 6), width = Some 100, xOffset = Some 0\<rparr>\<rparr>]"
  by (simp add: run_simps)

lemma scenario_B:
  "map_sum id returned
     (getStyledEvents utc (day [(0, clock 9 0, clock 10 0), (1, clock 9 0, clock 11 0)]) noMeta)
     = Inr [Some \<lparr>event = Some (1, clock 9 0, clock 11 0),
                   style = \<lparr>top' = Some (75 / 2), height = Some (25 / 3), width = Some 50, xOffset = Some 0\<rparr>\<rparr>,
            Some \<lparr>event = Some (0, clock 9 0, clock 10 0),
                   style = \<lparr>top' = Some (75 / 2), height = Some (25 / 6), width = Some 50, xOffset = Some 50\<rparr>\<rparr>]"
  by (simp add: run_simps utc_valueOf_clock)

lemma scenario_C:
  "map_sum id returned
     (getStyledEvents utc (day [(0, clock 9 0, clock 11 0), (1, clock 9 45, clock 10 15)]) noMeta)
     = Inr [Some \<lparr>event = Some (0, clock 9 0, clock 11 0),
                   style = \<lparr>top' = Some (75 / 2), height = Some (25 / 3), width = Some 100, xOffset = Some 0\<rparr>\<rparr>,
            Some \<lparr>event = Some (1, clock 9 45, clock 10 15),
                   style = \<lparr>top' = Some (325 / 8), height = Some (25 / 12), width = Some 97, xOffset = Some 3\<rparr>\<rparr>]"
  by (simp add: run_simps utc_valueOf_clock)

section \<open>The claims\<close>

text \<open>
  Claim C1. For every configuration \<open>getStyledEvents\<close> returns an array as long as
  the input (empty for no events) whose entry \<open>i\<close> holds the event at position
  \<open>i\<close> of the sorted array; every input event appears exactly once in the output.
\<close>

theorem getStyledEvents_coverage:
  "\<exists>out. getStyledEvents dm a m = Inr out
     \<and> length (returned out) = length (events a)
     \<and> (\<forall>i < length (events a). \<exists>sty. returned out ! i = Some \<lparr>event = Some (sort' dm a ! i), style = sty\<rparr>)
     \<and> mset (map (map_option event) (returned out)) = image_mset (\<lambda>e. Some (Some e)) (mset (events a))
     \<and> (events a = [] \<longrightarrow> returned out = [])"
proof -
  from getStyledEvents_total [of dm a m] obtain out where out: "getStyledEvents dm a m = Inr out"
    by blast
  have len: "length (returned out) = length (events a)"
    using getStyledEvents_total [of dm a m] out by (auto simp: styledUpTo_def)
  have entry: "\<exists>sty. returned out ! i = Some \<lparr>event = Some (sort' dm a ! i), style = sty\<rparr>"
    if "i < length (events a)" for i
    using returned_entries(2) [OF out that] by blast
  have slen: "length (sort' dm a) = length (events a)"
    using mset_sort' [of dm a] by (rule mset_eq_length)
  have "map (map_option event) (returned out) = map (\<lambda>e. Some (Some e)) (sort' dm a)"
  proof (rule nth_equalityI)
    show "length (map (map_option event) (returned out)) = length (map (\<lambda>e. Some (Some e)) (sort' dm a))"
      using len slen by simp
  next
    fix i
    assume "i < length (map (map_option event) (returned out))"
    then have i: "i < length (events a)" using len by simp
    from entry [OF i] obtain sty where "returned out ! i = Some \<lparr>event = Some (sort' dm a ! i), style = sty\<rparr>"
      by blast
    with i len slen show "map (map_option event) (returned out) ! i = map (\<lambda>e. Some (Some e)) (sort' dm a) ! i"
      by simp
  qed
  then have "mset (map (map_option event) (returned out)) = image_mset (\<lambda>e. Some (Some e)) (mset (events a))"
    by (simp add: mset_sort')
  with out len entry show ?thesis
    by auto
qed

theorem getStyledEvents_coverage_witness:
  "\<exists>out. getStyledEvents utc sameStart noMeta = Inr out
     \<and> length (returned out) = 3
     \<and> map (map_option event) (returned out)
         = [Some (Some (2, clock 8 0, clock 8 30)), Some (Some (1, clock 9 0, clock 11 0)),
            Some (Some (0, clock 9 0, clock 10 0))]"
proof -
  from getStyledEvents_coverage [of utc sameStart noMeta] obtain out where
    out: "getStyledEvents utc sameStart noMeta = Inr out"
    and len: "length (returned out) = length (events sameStart)"
    and entry: "\<forall>i < length (events sameStart). \<exists>sty. returned out ! i = Some \<lparr>event = Some (sort' utc sameStart ! i), style = sty\<rparr>"
    by blast
  have l3: "length (events sameStart) = 3"
    by (simp add: sameStart_def day_sel)
  from entry l3 have "\<forall>i<3. map_option event (returned out ! i) = Some (Some (sort' utc sameStart ! i))"
    by auto
  then have "map_option event (returned out ! 0) = Some (Some (sort' utc sameStart ! 0))"
    "map_option event (returned out ! 1) = Some (Some (sort' utc sameStart ! 1))"
    "map_option event (returned out ! 2) = Some (Some (sort' utc sameStart ! 2))"
    by simp_all
  moreover from len l3 obtain x y z where "returned out = [x, y, z]"
    by (auto simp: length_Suc_conv numeral_3_eq_3)
  ultimately have "map (map_option event) (returned out)
         = [Some (Some (2, clock 8 0, clock 8 30)), Some (Some (1, clock 9 0, clock 11 0)),
            Some (Some (0, clock 9 0, clock 10 0))]"
    by (simp add: sort'_sameStart)
  with out len l3 show ?thesis by auto
qed

text \<open>
  Claim C2. The sorter returns the same events ordered by ascending start time; of two
  events with equal start times the one with the later end time comes first. The comparator
  is total, so the order of the start and end times in the result is determined by the
  events alone, whatever their order in the input. The array of the caller holds the sorted
  events after the call.
\<close>

theorem sort_order:
  fixes dm :: "'d dateMath" and a b :: "('e, 'd) helperArgs"
  shows "mset (sort' dm a) = mset (events a)
       \<and> (\<forall>i j. i < j \<and> j < length (sort' dm a) \<longrightarrow>
              startTime dm a (sort' dm a ! i) \<le> startTime dm a (sort' dm a ! j)
              \<and> (startTime dm a (sort' dm a ! i) = startTime dm a (sort' dm a ! j)
                   \<longrightarrow> endTime dm a (sort' dm a ! j) \<le> endTime dm a (sort' dm a ! i)))
       \<and> (\<forall>i j. i < length (sort' dm a) \<and> j < length (sort' dm a)
              \<and> startTime dm a (sort' dm a ! i) = startTime dm a (sort' dm a ! j)
              \<and> endTime dm a (sort' dm a ! j) < endTime dm a (sort' dm a ! i) \<longrightarrow> i < j)
       \<and> (\<forall>x y. compareEvents dm a x y \<le> 0 \<or> compareEvents dm a y x \<le> 0)
       \<and> (image_mset (timesOf dm a) (mset (events a)) = image_mset (timesOf dm b) (mset (events b))
            \<longrightarrow> map (timesOf dm a) (sort' dm a) = map (timesOf dm b) (sort' dm b))
       \<and> (\<forall>m. \<exists>out. getStyledEvents dm a m = Inr out \<and> eventsAfter out = sort' dm a)"
proof (intro conjI allI impI)
  show "mset (sort' dm a) = mset (events a)"
    by (rule mset_sort')
next
  fix i j
  assume "i < j \<and> j < length (sort' dm a)"
  then show "startTime dm a (sort' dm a ! i) \<le> startTime dm a (sort' dm a ! j)"
    and "startTime dm a (sort' dm a ! i) = startTime dm a (sort' dm a ! j)
           \<Longrightarrow> endTime dm a (sort' dm a ! j) \<le> endTime dm a (sort' dm a ! i)"
    using sort'_ordered [of i j dm a] by blast+
next
  fix i j
  assume h: "i < length (sort' dm a) \<and> j < length (sort' dm a)
       \<and> startTime dm a (sort' dm a ! i) = startTime dm a (sort' dm a ! j)
       \<and> endTime dm a (sort' dm a ! j) < endTime dm a (sort' dm a ! i)"
  show "i < j"
  proof (rule ccontr)
    assume "\<not> i < j"
    with h have "j < i" by (cases "i = j") auto
    with h sort'_ordered [of j i dm a] show False by auto
  qed
next
  fix x y
  show "compareEvents dm a x y \<le> 0 \<or> compareEvents dm a y x \<le> 0"
    by (rule compareEvents_total)
next
  assume "image_mset (timesOf dm a) (mset (events a)) = image_mset (timesOf dm b) (mset (events b))"
  then show "map (timesOf dm a) (sort' dm a) = map (timesOf dm b) (sort' dm b)"
    by (rule sort'_times_unique)
next
  fix m
  from getStyledEvents_total [of dm a m]
  show "\<exists>out. getStyledEvents dm a m = Inr out \<and> eventsAfter out = sort' dm a"
    by blast
qed

theorem sort_order_witness:
  "sort' utc sameStart = [(2, clock 8 0, clock 8 30), (1, clock 9 0, clock 11 0), (0, clock 9 0, clock 10 0)]
   \<and> (1::nat) < 2 \<and> 2 < length (sort' utc sameStart)
   \<and> startTime utc sameStart (sort' utc sameStart ! 1) = startTime utc sameStart (sort' utc sameStart ! 2)
   \<and> endTime utc sameStart (sort' utc sameStart ! 2) \<le> endTime utc sameStart (sort' utc sameStart ! 1)
   \<and> image_mset (timesOf utc sameStart) (mset (events sameStart))
       = image_mset (timesOf utc sameStartShuffled) (mset (events sameStartShuffled))
   \<and> map (timesOf utc sameStart) (sort' utc sameStart)
       = map (timesOf utc sameStartShuffled) (sort' utc sameStartShuffled)
   \<and> (\<exists>out. getStyledEvents utc sameStart noMeta = Inr out
         \<and> eventsAfter out = [(2, clock 8 0, clock 8 30), (1, clock 9 0, clock 11 0), (0, clock 9 0, clock 10 0)])"
proof -
  have l: "(1::nat) < 2 \<and> 2 < length (sort' utc sameStart)"
    by (simp add: sort'_sameStart)
  have acc: "startAccessor sameStart = (\<lambda>e. fst (snd e))"
    by (simp add: sameStart_def day_sel)
  have s: "startTime utc sameStart (sort' utc sameStart ! 1) = startTime utc sameStart (sort' utc sameStart ! 2)"
    by (simp add: sort'_sameStart startTime_def acc)
  have m: "image_mset (timesOf utc sameStart) (mset (events sameStart))
       = image_mset (timesOf utc sameStartShuffled) (mset (events sameStartShuffled))"
    by (simp add: timesOf_def startTime_def endTime_def sameStart_def sameStartShuffled_def day_sel
        add_mset_commute)
  note so = sort_order [of utc sameStart sameStartShuffled]
  from so l s
  have e: "endTime utc sameStart (sort' utc sameStart ! 2) \<le> endTime utc sameStart (sort' utc sameStart ! 1)"
    by blast
  from so m
  have u: "map (timesOf utc sameStart) (sort' utc sameStart)
       = map (timesOf utc sameStartShuffled) (sort' utc sameStartShuffled)"
    by blast
  from so obtain out where "getStyledEvents utc sameStart noMeta = Inr out" "eventsAfter out = sort' utc sameStart"
    by blast
  with l s e m u sort'_sameStart show ?thesis
    by simp
qed

text \<open>
  Claim C3. For two indices that both reference existing events, \<open>isSibling\<close> holds
  exactly when the projected start slots differ by less than 30 minutes: a difference of
  exactly 30 minutes does not make siblings, a difference of 29 minutes does.
\<close>

theorem isSibling_threshold:
  assumes "i < length (events a)" and "j < length (events a)"
  shows "(isSibling dm (Some i) (Some j) a \<longleftrightarrow> \<bar>startSlot dm a i - startSlot dm a j\<bar> < 30)
       \<and> (\<bar>startSlot dm a i - startSlot dm a j\<bar> = 30 \<longrightarrow> \<not> isSibling dm (Some i) (Some j) a)
       \<and> (\<bar>startSlot dm a i - startSlot dm a j\<bar> = 29 \<longrightarrow> isSibling dm (Some i) (Some j) a)"
  using isSibling_slots [OF assms, of dm] by simp

theorem isSibling_threshold_witness:
  "(0::nat) < length (events threeStarts) \<and> (1::nat) < length (events threeStarts)
   \<and> (2::nat) < length (events threeStarts)
   \<and> \<bar>startSlot utc threeStarts 0 - startSlot utc threeStarts 1\<bar> = 29
   \<and> isSibling utc (Some 0) (Some 1) threeStarts
   \<and> \<bar>startSlot utc threeStarts 0 - startSlot utc threeStarts 2\<bar> = 30
   \<and> \<not> isSibling utc (Some 0) (Some 2) threeStarts"
proof -
  have len: "(0::nat) < length (events threeStarts)" "(1::nat) < length (events threeStarts)"
    "(2::nat) < length (events threeStarts)"
    by (simp_all add: threeStarts_def day_sel)
  have d1: "\<bar>startSlot utc threeStarts 0 - startSlot utc threeStarts 1\<bar> = 29"
    and d2: "\<bar>startSlot utc threeStarts 0 - startSlot utc threeStarts 2\<bar> = 30"
    by (simp_all add: threeStarts_slots)
  from isSibling_threshold [OF len(1) len(2), of utc] d1
  have "isSibling utc (Some 0) (Some 1) threeStarts" by blast
  moreover from isSibling_threshold [OF len(1) len(3), of utc] d2
  have "\<not> isSibling utc (Some 0) (Some 2) threeStarts" by blast
  ultimately show ?thesis using len d1 d2 by blast
qed

text \<open>
  Claim C4. For two indices that both reference existing events, \<open>isChild\<close> is false
  whenever the two are siblings, whatever the end of the parent; otherwise it holds exactly
  when the projected end slot of the parent is strictly greater than the projected start
  slot of the child.
\<close>

theorem isChild_rule:
  assumes "p < length (events a)" and "c < length (events a)"
  shows "(isSibling dm (Some p) (Some c) a \<longrightarrow> \<not> isChild dm (Some p) (Some c) a)
       \<and> (\<not> isSibling dm (Some p) (Some c) a \<longrightarrow>
            (isChild dm (Some p) (Some c) a \<longleftrightarrow> startSlot dm a c < endSlot dm a p))"
  using isChild_slots [OF assms, of dm] by simp

theorem isChild_rule_witness:
  "(0::nat) < length (events threeStarts) \<and> (1::nat) < length (events threeStarts)
   \<and> (2::nat) < length (events threeStarts)
   \<and> isSibling utc (Some 0) (Some 1) threeStarts
   \<and> startSlot utc threeStarts 1 < endSlot utc threeStarts 0
   \<and> \<not> isChild utc (Some 0) (Some 1) threeStarts
   \<and> \<not> isSibling utc (Some 0) (Some 2) threeStarts
   \<and> startSlot utc threeStarts 2 < endSlot utc threeStarts 0
   \<and> isChild utc (Some 0) (Some 2) threeStarts"
proof -
  have len: "(0::nat) < length (events threeStarts)" "(1::nat) < length (events threeStarts)"
    "(2::nat) < length (events threeStarts)"
    by (simp_all add: threeStarts_def day_sel)
  have s1: "isSibling utc (Some 0) (Some 1) threeStarts"
    and s2: "\<not> isSibling utc (Some 0) (Some 2) threeStarts"
    using isSibling_slots [OF len(1) len(2), of utc] isSibling_slots [OF len(1) len(3), of utc]
    by (simp_all add: threeStarts_slots)
  have e: "startSlot utc threeStarts 1 < endSlot utc threeStarts 0"
    "startSlot utc threeStarts 2 < endSlot utc threeStarts 0"
    by (simp_all add: threeStarts_slots)
  from isChild_rule [OF len(1) len(2), of utc] s1
  have "\<not> isChild utc (Some 0) (Some 1) threeStarts" by blast
  moreover from isChild_rule [OF len(1) len(3), of utc] s2 e(2)
  have "isChild utc (Some 0) (Some 2) threeStarts" by blast
  ultimately show ?thesis using len s1 s2 e by blast
qed

text \<open>
  Claim C5. On a window of positive width, every styled event of the output has
  \<open>top = 100 * startSlot / totalMin\<close> and
  \<open>height = 100 * (endSlot' - startSlot) / totalMin\<close>, where \<open>endSlot'\<close> is the end
  slot raised to at least \<open>startSlot + step\<close>; so the height is at least
  \<open>100 * step / totalMin\<close>, and it is not negative when the step is not, whatever the
  duration of the event.
\<close>

theorem styled_top_height:
  assumes "0 < totalMin a"
  shows "\<exists>out. getStyledEvents dm a m = Inr out
     \<and> (\<forall>i < length (events a). \<exists>ev t h w x.
           returned out ! i = Some \<lparr>event = ev, style = \<lparr>top' = Some t, height = Some h, width = w, xOffset = x\<rparr>\<rparr>
           \<and> t = 100 * rat_of_int (startSlot dm (a\<lparr>events := sort' dm a\<rparr>) i) / rat_of_int (totalMin a)
           \<and> h = 100 * (rat_of_int (max (endSlot dm (a\<lparr>events := sort' dm a\<rparr>) i)
                                      (startSlot dm (a\<lparr>events := sort' dm a\<rparr>) i + step a))
                         - rat_of_int (startSlot dm (a\<lparr>events := sort' dm a\<rparr>) i)) / rat_of_int (totalMin a)
           \<and> 100 * rat_of_int (step a) / rat_of_int (totalMin a) \<le> h
           \<and> (0 \<le> step a \<longrightarrow> 0 \<le> h))"
proof -
  define a' where "a' = a\<lparr>events := sort' dm a\<rparr>"
  have a': "totalMin a' = totalMin a" "step a' = step a" "length (events a') = length (events a)"
    using mset_eq_length [OF mset_sort' [of dm a]] by (simp_all add: a'_def)
  from getStyledEvents_total [of dm a m] obtain out where out: "getStyledEvents dm a m = Inr out"
    by blast
  have "\<exists>ev t h w x.
           returned out ! i = Some \<lparr>event = ev, style = \<lparr>top' = Some t, height = Some h, width = w, xOffset = x\<rparr>\<rparr>
           \<and> t = 100 * rat_of_int (startSlot dm a' i) / rat_of_int (totalMin a)
           \<and> h = 100 * (rat_of_int (max (endSlot dm a' i) (startSlot dm a' i + step a))
                         - rat_of_int (startSlot dm a' i)) / rat_of_int (totalMin a)
           \<and> 100 * rat_of_int (step a) / rat_of_int (totalMin a) \<le> h
           \<and> (0 \<le> step a \<longrightarrow> 0 \<le> h)"
    if i: "i < length (events a)" for i
  proof -
    from returned_entries(2) [OF out i] obtain w x where
      e: "returned out ! i = Some \<lparr>event = Some (sort' dm a ! i),
                  style = \<lparr>top' = top' (getYStyles dm i a'), height = height (getYStyles dm i a'),
                           width = w, xOffset = x\<rparr>\<rparr>"
      by (auto simp: a'_def)
    have i': "i < length (events a')" and t: "totalMin a' \<noteq> 0" "0 < totalMin a'"
      using i assms a' by simp_all
    from getYStyles_floor [OF i' t(2), of dm] obtain h where
      h: "height (getYStyles dm i a') = Some h" "100 * rat_of_int (step a') / rat_of_int (totalMin a') \<le> h"
        "0 \<le> step a' \<longrightarrow> 0 \<le> h"
      by blast
    with e getYStyles_slots [OF i' t(1), of dm] a' show ?thesis
      by auto
  qed
  with out show ?thesis
    unfolding a'_def by blast
qed

theorem styled_top_height_witness:
  "0 < totalMin inverted \<and> 0 \<le> step inverted
   \<and> (\<exists>out ev w x. getStyledEvents utc inverted noMeta = Inr out
        \<and> returned out ! 0 = Some \<lparr>event = ev, style = \<lparr>top' = Some (125 / 3), height = Some (25 / 12),
                                                        width = w, xOffset = x\<rparr>\<rparr>)"
proof -
  have t: "0 < totalMin inverted" and st: "0 \<le> step inverted"
    by (simp_all add: inverted_def day_sel)
  have s: "sort' utc inverted = [(0, clock 10 0, clock 9 0)]"
    by (simp add: sort'_def array_sort_def inverted_def day_sel)
  have a': "inverted\<lparr>events := sort' utc inverted\<rparr> = inverted"
    unfolding s by (simp add: inverted_def day_def)
  have sl: "startSlot utc (inverted\<lparr>events := sort' utc inverted\<rparr>) 0 = 600"
    "endSlot utc (inverted\<lparr>events := sort' utc inverted\<rparr>) 0 = 540"
    unfolding a' by (simp_all add: startSlot_def endSlot_def inverted_def day_sel clock_slot)
  have l: "(0::nat) < length (events inverted)" "totalMin inverted = 1440" "step inverted = 30"
    by (simp_all add: inverted_def day_sel)
  from styled_top_height [OF t, of utc noMeta] l(1) obtain out ev t h w x where
    "getStyledEvents utc inverted noMeta = Inr out"
    "returned out ! 0 = Some \<lparr>event = ev, style = \<lparr>top' = Some t, height = Some h, width = w, xOffset = x\<rparr>\<rparr>"
    "t = 100 * rat_of_int (startSlot utc (inverted\<lparr>events := sort' utc inverted\<rparr>) 0) / rat_of_int (totalMin inverted)"
    "h = 100 * (rat_of_int (max (endSlot utc (inverted\<lparr>events := sort' utc inverted\<rparr>) 0)
                              (startSlot utc (inverted\<lparr>events := sort' utc inverted\<rparr>) 0 + step inverted))
                 - rat_of_int (startSlot utc (inverted\<lparr>events := sort' utc inverted\<rparr>) 0)) / rat_of_int (totalMin inverted)"
    by blast
  then have "getStyledEvents utc inverted noMeta = Inr out
        \<and> returned out ! 0 = Some \<lparr>event = ev, style = \<lparr>top' = Some (125 / 3), height = Some (25 / 12),
                                                        width = w, xOffset = x\<rparr>\<rparr>"
    by (simp add: sl l)
  with t st show ?thesis by blast
qed

text \<open>
  Claim C6. The top level phase on the anchor \<open>idx\<close> and its sibling run, \<open>n\<close>
  events in all, gives member \<open>k\<close> of the run the width \<open>100 / n\<close> and the offset
  \<open>k * (100 / n)\<close>; for \<open>n \<ge> 2\<close> it sets \<open>overlappingCount\<close> of each member to
  \<open>n\<close>, and for \<open>n = 1\<close> the width is 100, the offset 0 and no metadata is written.
\<close>

theorem topLevel_partition:
  fixes dm :: "'d dateMath" and a :: "('e, 'd) helperArgs" and idx n :: nat
  assumes idx: "idx < length (events a)"
  defines "n \<equiv> Suc (length (getSiblings dm idx a))"
  shows "\<exists>st'. forEach (setTopLevelStyle dm a (getSiblings dm idx a)) (idx # getSiblings dm idx a) st = Inr st'
     \<and> (\<forall>k < n. \<exists>t h.
          js_nth (styledEvents st') ((idx # getSiblings dm idx a) ! k)
            = Some (Some \<lparr>event = Some (events a ! ((idx # getSiblings dm idx a) ! k)),
                          style = \<lparr>top' = t, height = h, width = Some (100 / of_nat n),
                                   xOffset = Some (of_nat k * (100 / of_nat n))\<rparr>\<rparr>)
          \<and> (2 \<le> n \<longrightarrow> overlappingCount (meta st' (events a ! ((idx # getSiblings dm idx a) ! k))) = Some n))
     \<and> (n = 1 \<longrightarrow> meta st' = meta st
          \<and> (\<exists>ev t h. js_nth (styledEvents st') idx
                = Some (Some \<lparr>event = ev, style = \<lparr>top' = t, height = h, width = Some 100, xOffset = Some 0\<rparr>\<rparr>)))"
  unfolding n_def using idx by (rule topLevel_styles)

theorem topLevel_partition_witness:
  "(0::nat) < length (events twoAtNine)
   \<and> getSiblings utc 0 twoAtNine = [1]
   \<and> (\<exists>st' t0 h0 t1 h1.
        forEach (setTopLevelStyle utc twoAtNine [1]) [0, 1] \<lparr>meta = noMeta, styledEvents = []\<rparr> = Inr st'
        \<and> js_nth (styledEvents st') 0
            = Some (Some \<lparr>event = Some (1, clock 9 0, clock 11 0),
                          style = \<lparr>top' = t0, height = h0, width = Some 50, xOffset = Some 0\<rparr>\<rparr>)
        \<and> js_nth (styledEvents st') 1
            = Some (Some \<lparr>event = Some (0, clock 9 0, clock 10 0),
                          style = \<lparr>top' = t1, height = h1, width = Some 50, xOffset = Some 50\<rparr>\<rparr>)
        \<and> overlappingCount (meta st' (1, clock 9 0, clock 11 0)) = Some 2
        \<and> overlappingCount (meta st' (0, clock 9 0, clock 10 0)) = Some 2)"
proof -
  have l: "(0::nat) < length (events twoAtNine)"
    by (simp add: twoAtNine_def day_sel)
  have ev: "events twoAtNine ! 0 = (1, clock 9 0, clock 11 0)" "events twoAtNine ! Suc 0 = (0, clock 9 0, clock 10 0)"
    by (simp_all add: twoAtNine_def day_sel)
  from topLevel_partition [OF l, of utc "\<lparr>meta = noMeta, styledEvents = []\<rparr>"] obtain st' where
    st': "forEach (setTopLevelStyle utc twoAtNine [1]) [0, 1] \<lparr>meta = noMeta, styledEvents = []\<rparr> = Inr st'"
    and all: "\<forall>k < 2. \<exists>t h.
          js_nth (styledEvents st') ([0, 1] ! k)
            = Some (Some \<lparr>event = Some (events twoAtNine ! ([0, 1] ! k)),
                          style = \<lparr>top' = t, height = h, width = Some (100 / of_nat 2),
                                   xOffset = Some (of_nat k * (100 / of_nat 2))\<rparr>\<rparr>)
          \<and> overlappingCount (meta st' (events twoAtNine ! ([0, 1] ! k))) = Some 2"
    unfolding getSiblings_twoAtNine by auto
  from all [rule_format, of 0] all [rule_format, of 1] ev
  have "\<exists>t0 h0 t1 h1. js_nth (styledEvents st') 0
            = Some (Some \<lparr>event = Some (1, clock 9 0, clock 11 0),
                          style = \<lparr>top' = t0, height = h0, width = Some 50, xOffset = Some 0\<rparr>\<rparr>)
        \<and> js_nth (styledEvents st') 1
            = Some (Some \<lparr>event = Some (0, clock 9 0, clock 10 0),
                          style = \<lparr>top' = t1, height = h1, width = Some 50, xOffset = Some 50\<rparr>\<rparr>)
        \<and> overlappingCount (meta st' (1, clock 9 0, clock 11 0)) = Some 2
        \<and> overlappingCount (meta st' (0, clock 9 0, clock 10 0)) = Some 2"
    by auto
  with l st' getSiblings_twoAtNine show ?thesis
    by blast
qed

text \<open>
  Claim C7. The claim has a child group end up parented to the latest sibling of the
  anchor's run that is a child-relation parent of its first member, as the comment of
  \<open>getStyledEvents\<close> does (a move can be made to one of the parent's siblings, if
  that sibling is also a parent to the child group). The loop of the source stops at the
  first sibling that is not such a parent. On the events 09:00-12:00, 09:05-09:20,
  09:10-11:00, 10:00-10:30 and 10:10-10:30 the anchor is the first event, its sibling run
  is the second and the third, and the last two form one child group. The third event is
  a child-relation parent of the group's first member, but the second is not, so the
  group stays on the anchor and is laid out from the anchor's \<open>xOffset = 0\<close>, at
  \<open>xOffset\<close> 3 and 109 / 6, where the third event's \<open>xOffset = 200 / 3\<close> would
  give 209 / 3 and 509 / 6.
\<close>

theorem reparent_not_latest:
  "getSiblings utc 0 lateParent = [1, 2]
   \<and> childGroups (getChildGroups utc 0 3 lateParent) = [[3, 4]]
   \<and> isChild utc (Some 2) (Some 3) lateParent
   \<and> reparent utc [1, 2] (js_nth [3, 4] 0) (Some 0) 0 lateParent = Some 0
   \<and> map_sum id returned (getStyledEvents utc lateParent noMeta)
       = Inr [Some \<lparr>event = Some (0, clock 9 0, clock 12 0),
                     style = \<lparr>top' = Some (75 / 2), height = Some (25 / 2),
                              width = Some (100 / 3), xOffset = Some 0\<rparr>\<rparr>,
              Some \<lparr>event = Some (1, clock 9 5, clock 9 20),
                     style = \<lparr>top' = Some (2725 / 72), height = Some (25 / 12),
                              width = Some (100 / 3), xOffset = Some (100 / 3)\<rparr>\<rparr>,
              Some \<lparr>event = Some (2, clock 9 10, clock 11 0),
                     style = \<lparr>top' = Some (1375 / 36), height = Some (275 / 36),
                              width = Some (100 / 3), xOffset = Some (200 / 3)\<rparr>\<rparr>,
              Some \<lparr>event = Some (3, clock 10 0, clock 10 30),
                     style = \<lparr>top' = Some (125 / 3), height = Some (25 / 12),
                              width = Some (91 / 6), xOffset = Some 3\<rparr>\<rparr>,
              Some \<lparr>event = Some (4, clock 10 10, clock 10 30),
                     style = \<lparr>top' = Some (1525 / 36), height = Some (25 / 12),
                              width = Some (91 / 6), xOffset = Some (109 / 6)\<rparr>\<rparr>]"
proof -
  have sib: "getSiblings utc 0 lateParent = [1, 2]"
    by (simp add: getSiblings_def getSiblings_loop.simps isSibling_eval startSlot_def lateParent_def
        day_sel clock_slot)
  have grp: "childGroups (getChildGroups utc 0 3 lateParent) = [[3, 4]]"
    by (simp add: getChildGroups_def getChildGroups_loop.simps getChildGroups_inner.simps
        isSibling_eval isChild_eval startSlot_def endSlot_def lateParent_def day_sel clock_slot)
  have chl: "isChild utc (Some 2) (Some 3) lateParent"
    by (simp add: isChild_eval startSlot_def endSlot_def lateParent_def day_sel clock_slot)
  have rep: "reparent utc [1, 2] (js_nth [3, 4] 0) (Some 0) 0 lateParent = Some 0"
    by (simp add: reparent.simps js_nth_def isChild_eval startSlot_def endSlot_def lateParent_def
        day_sel clock_slot)
  have run: "map_sum id returned (getStyledEvents utc lateParent noMeta)
       = Inr [Some \<lparr>event = Some (0, clock 9 0, clock 12 0),
                     style = \<lparr>top' = Some (75 / 2), height = Some (25 / 2),
                              width = Some (100 / 3), xOffset = Some 0\<rparr>\<rparr>,
              Some \<lparr>event = Some (1, clock 9 5, clock 9 20),
                     style = \<lparr>top' = Some (2725 / 72), height = Some (25 / 12),
                              width = Some (100 / 3), xOffset = Some (100 / 3)\<rparr>\<rparr>,
              Some \<lparr>event = Some (2, clock 9 10, clock 11 0),
                     style = \<lparr>top' = Some (1375 / 36), height = Some (275 / 36),
                              width = Some (100 / 3), xOffset = Some (200 / 3)\<rparr>\<rparr>,
              Some \<lparr>event = Some (3, clock 10 0, clock 10 30),
                     style = \<lparr>top' = Some (125 / 3), height = Some (25 / 12),
                              width = Some (91 / 6), xOffset = Some 3\<rparr>\<rparr>,
              Some \<lparr>event = Some (4, clock 10 10, clock 10 30),
                     style = \<lparr>top' = Some (1525 / 36), height = Some (25 / 12),
                              width = Some (91 / 6), xOffset = Some (109 / 6)\<rparr>\<rparr>]"
    by (simp add: lateParent_def run_simps utc_valueOf_clock)
  from sib grp chl rep run show ?thesis
    by (simp only: simp_thms)
qed

text \<open>
  Claim C8. When a child group of two or more members is styled under its resolved
  parent, member \<open>i\<close> gets
  \<open>width = (parentWidth - 3 * groupIndex) / count - 3 / count\<close> and
  \<open>xOffset = parentXOffset + width * i + 3 * groupNumber\<close>, where \<open>count\<close> is the
  size of the group and \<open>groupNumber = groupIndex + 1\<close>, and \<open>overlappingCount\<close>,
  \<open>groupNumber\<close>, \<open>groupStart = (i = 0)\<close> and \<open>groupEnd = (i = count - 1)\<close> are
  written onto its event (the last two are given for members that are distinct objects,
  since a later member that is the same object writes them again). A group of one member
  gets \<open>xOffset = 3 * groupNumber\<close> and \<open>width = 100 - xOffset\<close>, and no metadata
  is written.
\<close>

theorem childGroup_sizing:
  fixes dm :: "'d dateMath" and a :: "('e, 'd) helperArgs" and st :: "'e layout"
  assumes par: "reparent dm siblings (js_nth group' 0) (Some idx) 0 a = Some p"
    and parent: "js_nth (styledEvents st) p = Some (Some parent)"
    and pw: "width (style parent) = Some pw" and px: "xOffset (style parent) = Some px"
    and dist: "distinct group'" and notin: "p \<notin> set group'"
    and inrange: "\<forall>x \<in> set group'. x < length (events a)"
  shows "\<exists>st'. setChildGroupStyles dm a idx siblings group' groupIndex st = Inr st'
     \<and> (2 \<le> length group' \<longrightarrow>
          (\<forall>i < length group'. \<exists>t h w.
             w = (pw - 3 * of_nat groupIndex) / of_nat (length group') - 3 / of_nat (length group')
             \<and> js_nth (styledEvents st') (group' ! i)
                 = Some (Some \<lparr>event = Some (events a ! (group' ! i)),
                               style = \<lparr>top' = t, height = h, width = Some w,
                                        xOffset = Some (px + w * of_nat i + 3 * of_nat (groupIndex + 1))\<rparr>\<rparr>)
             \<and> overlappingCount (meta st' (events a ! (group' ! i))) = Some (length group')
             \<and> groupNumber (meta st' (events a ! (group' ! i))) = Some (groupIndex + 1)
             \<and> (inj_on (\<lambda>x. events a ! x) (set group') \<longrightarrow>
                  groupStart (meta st' (events a ! (group' ! i))) = Some (i = 0)
                  \<and> groupEnd (meta st' (events a ! (group' ! i))) = Some (i = length group' - 1))))
     \<and> (length group' = 1 \<longrightarrow>
          meta st' = meta st
          \<and> (\<exists>t h. js_nth (styledEvents st') (group' ! 0)
                = Some (Some \<lparr>event = Some (events a ! (group' ! 0)),
                              style = \<lparr>top' = t, height = h,
                                       width = Some (100 - 3 * of_nat (groupIndex + 1)),
                                       xOffset = Some (3 * of_nat (groupIndex + 1))\<rparr>\<rparr>)))"
proof -
  define len where "len = length group'"
  define W :: rat where "W = (if len = 1 then 100 - 3 * of_nat (groupIndex + 1)
                      else (pw - 3 * of_nat groupIndex) / of_nat len - 3 / of_nat len)"
  define X :: "nat \<Rightarrow> rat" where "X i = (if len = 1 then 3 * of_nat (groupIndex + 1)
                      else px + ((pw - 3 * of_nat groupIndex) / of_nat len - 3 / of_nat len) * of_nat i
                           + 3 * of_nat (groupIndex + 1))" for i
  define ev where "ev j = events a ! (group' ! j)" for j
  define entry where "entry j t h = \<lparr>event = Some (ev j),
       style = \<lparr>top' = t, height = h, width = Some W, xOffset = Some (X j)\<rparr>\<rparr>" for j and t h :: jsnum
  define upd where "upd k m = (if len = 1 then m
       else m(ev k := (m (ev k))\<lparr>overlappingCount := Some len, groupNumber := Some (groupIndex + 1),
                                  groupStart := Some (k = 0), groupEnd := Some (k = len - 1)\<rparr>))"
    for k and m :: "'e \<Rightarrow> metadata"
  define I where "I k s \<longleftrightarrow>
      js_nth (styledEvents s) p = Some (Some parent)
      \<and> (\<forall>j<k. (\<exists>t h. js_nth (styledEvents s) (group' ! j) = Some (Some (entry j t h)))
               \<and> (len \<noteq> 1 \<longrightarrow> overlappingCount (meta s (ev j)) = Some len
                                 \<and> groupNumber (meta s (ev j)) = Some (groupIndex + 1))
               \<and> (len \<noteq> 1 \<and> inj_on (\<lambda>x. events a ! x) (set group') \<longrightarrow>
                    groupStart (meta s (ev j)) = Some (j = 0)
                    \<and> groupEnd (meta s (ev j)) = Some (j = len - 1)))
      \<and> (len = 1 \<longrightarrow> meta s = meta st)" for k and s :: "'e layout"
  have "\<exists>st'. forEachFrom (setChildStyle dm a group' groupIndex (Some p)) group' 0 st = Inr st'
          \<and> I (0 + length group') st'"
  proof (rule forEachFrom_rule)
    show "I 0 st" using parent by (simp add: I_def)
  next
    fix k s
    assume k: "k < length group'" and inv: "I (0 + k) s"
    from k inrange have ek: "group' ! k < length (events a)" and ne: "group' \<noteq> []"
      by auto
    from inv have par_s: "js_index (styledEvents s) (Some p) = Some (Some parent)"
      by (simp add: I_def js_index_def)
    have prev: "(\<exists>t h. js_nth (styledEvents s) (group' ! j) = Some (Some (entry j t h)))
               \<and> (len \<noteq> 1 \<longrightarrow> overlappingCount (meta s (ev j)) = Some len
                                 \<and> groupNumber (meta s (ev j)) = Some (groupIndex + 1))
               \<and> (len \<noteq> 1 \<and> inj_on (\<lambda>x. events a ! x) (set group') \<longrightarrow>
                    groupStart (meta s (ev j)) = Some (j = 0)
                    \<and> groupEnd (meta s (ev j)) = Some (j = len - 1))"
      if "j < k" for j
      using inv that by (simp add: I_def)
    define s' where "s' = \<lparr>meta = upd k (meta s),
          styledEvents = js_assign (styledEvents s) (group' ! k)
            (entry k (top' (getYStyles dm (group' ! k) a)) (height (getYStyles dm (group' ! k) a)))\<rparr>"
    have res: "setChildStyle dm a group' groupIndex (Some p) (group' ! k) (0 + k) s = Inr s'"
      using setChildStyle_result [OF par_s pw px ek ne, of dm groupIndex k]
      by (simp add: s'_def entry_def upd_def ev_def W_def X_def len_def)
    have kp: "group' ! k \<noteq> p"
      using k notin by auto
    have "I (Suc (0 + k)) s'"
      unfolding I_def
    proof (intro conjI allI impI)
      from inv have "js_nth (styledEvents s) p = Some (Some parent)"
        by (simp add: I_def)
      with kp show "js_nth (styledEvents s') p = Some (Some parent)"
        by (simp add: s'_def js_nth_js_assign_other)
    next
      fix j
      assume j: "j < Suc (0 + k)"
      show "\<exists>t h. js_nth (styledEvents s') (group' ! j) = Some (Some (entry j t h))"
      proof (cases "j = k")
        case True
        then show ?thesis
          by (auto simp: s'_def js_nth_js_assign_same)
      next
        case False
        with j have jk: "j < k" by simp
        with k dist have "group' ! k \<noteq> group' ! j"
          by (simp add: nth_eq_iff_index_eq)
        moreover from prev [OF jk] obtain t h where
          "js_nth (styledEvents s) (group' ! j) = Some (Some (entry j t h))"
          by blast
        ultimately have "js_nth (styledEvents s') (group' ! j) = Some (Some (entry j t h))"
          by (simp add: s'_def js_nth_js_assign_other)
        then show ?thesis by blast
      qed
    next
      fix j
      assume j: "j < Suc (0 + k)" and l: "len \<noteq> 1"
      show "overlappingCount (meta s' (ev j)) = Some len"
      proof (cases "ev j = ev k")
        case True
        with l show ?thesis by (simp add: s'_def upd_def)
      next
        case False
        then have "j \<noteq> k" by auto
        with j have "j < k" by simp
        from prev [OF this] l False show ?thesis
          by (simp add: s'_def upd_def)
      qed
      show "groupNumber (meta s' (ev j)) = Some (groupIndex + 1)"
      proof (cases "ev j = ev k")
        case True
        with l show ?thesis by (simp add: s'_def upd_def)
      next
        case False
        then have "j \<noteq> k" by auto
        with j have "j < k" by simp
        from prev [OF this] l False show ?thesis
          by (simp add: s'_def upd_def)
      qed
    next
      fix j
      assume j: "j < Suc (0 + k)" and l: "len \<noteq> 1 \<and> inj_on (\<lambda>x. events a ! x) (set group')"
      have sep: "ev j \<noteq> ev k" if "j < k"
      proof
        assume "ev j = ev k"
        with l that k have "group' ! j = group' ! k"
          by (auto simp: ev_def inj_on_def)
        with that k dist show False
          by (simp add: nth_eq_iff_index_eq)
      qed
      show "groupStart (meta s' (ev j)) = Some (j = 0)"
      proof (cases "j = k")
        case True
        with l show ?thesis by (simp add: s'_def upd_def)
      next
        case False
        with j have jk: "j < k" by simp
        from prev [OF jk] l sep [OF jk] show ?thesis
          by (simp add: s'_def upd_def)
      qed
      show "groupEnd (meta s' (ev j)) = Some (j = len - 1)"
      proof (cases "j = k")
        case True
        with l show ?thesis by (simp add: s'_def upd_def)
      next
        case False
        with j have jk: "j < k" by simp
        from prev [OF jk] l sep [OF jk] show ?thesis
          by (simp add: s'_def upd_def)
      qed
    next
      assume "len = 1"
      moreover from this inv have "meta s = meta st" by (simp add: I_def)
      ultimately show "meta s' = meta st" by (simp add: s'_def upd_def)
    qed
    with res show "\<exists>s'. setChildStyle dm a group' groupIndex (Some p) (group' ! k) (0 + k) s = Inr s'
        \<and> I (Suc (0 + k)) s'"
      by blast
  qed
  then obtain st' where st': "setChildGroupStyles dm a idx siblings group' groupIndex st = Inr st'"
    and fin: "I len st'"
    using par by (auto simp: setChildGroupStyles_def forEach_def Let_def len_def)
  have many: "\<exists>t h w.
             w = (pw - 3 * of_nat groupIndex) / of_nat (length group') - 3 / of_nat (length group')
             \<and> js_nth (styledEvents st') (group' ! i)
                 = Some (Some \<lparr>event = Some (events a ! (group' ! i)),
                               style = \<lparr>top' = t, height = h, width = Some w,
                                        xOffset = Some (px + w * of_nat i + 3 * of_nat (groupIndex + 1))\<rparr>\<rparr>)
             \<and> overlappingCount (meta st' (events a ! (group' ! i))) = Some (length group')
             \<and> groupNumber (meta st' (events a ! (group' ! i))) = Some (groupIndex + 1)
             \<and> (inj_on (\<lambda>x. events a ! x) (set group') \<longrightarrow>
                  groupStart (meta st' (events a ! (group' ! i))) = Some (i = 0)
                  \<and> groupEnd (meta st' (events a ! (group' ! i))) = Some (i = length group' - 1))"
    if l: "2 \<le> length group'" and i: "i < length group'" for i
  proof -
    from l have l1: "len \<noteq> 1" by (simp add: len_def)
    from fin i l1 obtain t h where
      "js_nth (styledEvents st') (group' ! i) = Some (Some (entry i t h))"
      "overlappingCount (meta st' (ev i)) = Some len" "groupNumber (meta st' (ev i)) = Some (groupIndex + 1)"
      "inj_on (\<lambda>x. events a ! x) (set group') \<longrightarrow>
         groupStart (meta st' (ev i)) = Some (i = 0) \<and> groupEnd (meta st' (ev i)) = Some (i = len - 1)"
      unfolding I_def len_def [symmetric] by blast
    with l1 show ?thesis
      by (simp add: entry_def ev_def W_def X_def len_def)
  qed
  have one: "meta st' = meta st
          \<and> (\<exists>t h. js_nth (styledEvents st') (group' ! 0)
                = Some (Some \<lparr>event = Some (events a ! (group' ! 0)),
                              style = \<lparr>top' = t, height = h,
                                       width = Some (100 - 3 * of_nat (groupIndex + 1)),
                                       xOffset = Some (3 * of_nat (groupIndex + 1))\<rparr>\<rparr>))"
    if l: "length group' = 1"
  proof -
    from l have l1: "len = 1" by (simp add: len_def)
    with fin obtain t h where
      "js_nth (styledEvents st') (group' ! 0) = Some (Some (entry 0 t h))" "meta st' = meta st"
      unfolding I_def by auto
    with l1 show ?thesis
      by (auto simp: entry_def ev_def W_def X_def)
  qed
  from st' many one show ?thesis
    by blast
qed

theorem childGroup_sizing_witness:
  "reparent utc [] (js_nth [1, 2] 0) (Some 0) 0 nested = Some 0
   \<and> distinct [1::nat, 2] \<and> (0::nat) \<notin> set [1, 2]
   \<and> (1::nat) < length (events nested) \<and> (2::nat) < length (events nested)
   \<and> (\<exists>st' t1 h1 t2 h2.
        setChildGroupStyles utc nested 0 [] [1, 2] 0 nestedParentStyled = Inr st'
        \<and> js_nth (styledEvents st') 1
            = Some (Some \<lparr>event = Some (1, clock 10 0, clock 10 30),
                          style = \<lparr>top' = t1, height = h1, width = Some (97 / 2), xOffset = Some 3\<rparr>\<rparr>)
        \<and> js_nth (styledEvents st') 2
            = Some (Some \<lparr>event = Some (2, clock 10 10, clock 10 30),
                          style = \<lparr>top' = t2, height = h2, width = Some (97 / 2), xOffset = Some (103 / 2)\<rparr>\<rparr>)
        \<and> overlappingCount (meta st' (1, clock 10 0, clock 10 30)) = Some 2
        \<and> groupNumber (meta st' (1, clock 10 0, clock 10 30)) = Some 1
        \<and> groupStart (meta st' (1, clock 10 0, clock 10 30)) = Some True
        \<and> groupEnd (meta st' (1, clock 10 0, clock 10 30)) = Some False
        \<and> overlappingCount (meta st' (2, clock 10 10, clock 10 30)) = Some 2
        \<and> groupNumber (meta st' (2, clock 10 10, clock 10 30)) = Some 1
        \<and> groupStart (meta st' (2, clock 10 10, clock 10 30)) = Some False
        \<and> groupEnd (meta st' (2, clock 10 10, clock 10 30)) = Some True)"
proof -
  have par: "reparent utc [] (js_nth [1, 2] 0) (Some 0) 0 nested = Some 0"
    by (simp add: reparent.simps js_nth_def isChild_undefined)
  have parent: "js_nth (styledEvents nestedParentStyled) 0
      = Some (Some \<lparr>event = Some (0, clock 9 0, clock 12 0),
                    style = \<lparr>top' = Some (75 / 2), height = Some (25 / 2),
                             width = Some 100, xOffset = Some 0\<rparr>\<rparr>)"
    by (simp add: nestedParentStyled_def js_nth_def)
  have ev: "events nested ! Suc 0 = (1, clock 10 0, clock 10 30)" "events nested ! 2 = (2, clock 10 10, clock 10 30)"
    "length (events nested) = 3"
    by (simp_all add: nested_def day_sel)
  have inj: "inj_on (\<lambda>x. events nested ! x) (set [1, 2])"
    by (simp add: ev)
  have rng: "\<forall>x \<in> set [1::nat, 2]. x < length (events nested)"
    by (simp add: ev)
  have pw: "width (style \<lparr>event = Some (0 :: nat, clock 9 0, clock 12 0),
                    style = \<lparr>top' = Some (75 / 2), height = Some (25 / 2),
                             width = Some 100, xOffset = Some 0\<rparr>\<rparr>) = Some 100"
    and px: "xOffset (style \<lparr>event = Some (0 :: nat, clock 9 0, clock 12 0),
                    style = \<lparr>top' = Some (75 / 2), height = Some (25 / 2),
                             width = Some 100, xOffset = Some 0\<rparr>\<rparr>) = Some 0"
    by simp_all
  have dist: "distinct [1::nat, 2]" and notin: "(0::nat) \<notin> set [1, 2]"
    by simp_all
  have two: "2 \<le> length [1::nat, 2]" and l0: "0 < length [1::nat, 2]" and l1: "1 < length [1::nat, 2]"
    by simp_all
  from childGroup_sizing [OF par parent pw px dist notin rng, of 0]
  obtain st' where st': "setChildGroupStyles utc nested 0 [] [1, 2] 0 nestedParentStyled = Inr st'"
    and rest: "2 \<le> length [1::nat, 2] \<longrightarrow>
          (\<forall>i < length [1::nat, 2]. \<exists>t h w.
             w = (100 - 3 * of_nat 0) / of_nat (length [1::nat, 2]) - 3 / of_nat (length [1::nat, 2])
             \<and> js_nth (styledEvents st') ([1, 2] ! i)
                 = Some (Some \<lparr>event = Some (events nested ! ([1, 2] ! i)),
                               style = \<lparr>top' = t, height = h, width = Some w,
                                        xOffset = Some (0 + w * of_nat i + 3 * of_nat (0 + 1))\<rparr>\<rparr>)
             \<and> overlappingCount (meta st' (events nested ! ([1, 2] ! i))) = Some (length [1::nat, 2])
             \<and> groupNumber (meta st' (events nested ! ([1, 2] ! i))) = Some (0 + 1)
             \<and> (inj_on (\<lambda>x. events nested ! x) (set [1, 2]) \<longrightarrow>
                  groupStart (meta st' (events nested ! ([1, 2] ! i))) = Some (i = 0)
                  \<and> groupEnd (meta st' (events nested ! ([1, 2] ! i))) = Some (i = length [1::nat, 2] - 1)))"
    by blast
  note all = rest [rule_format, OF two]
  from all [OF l0] obtain t1 h1 w1 where m1:
    "w1 = (100 - 3 * of_nat 0) / of_nat (length [1::nat, 2]) - 3 / of_nat (length [1::nat, 2])"
    "js_nth (styledEvents st') ([1, 2] ! 0)
       = Some (Some \<lparr>event = Some (events nested ! ([1, 2] ! 0)),
                     style = \<lparr>top' = t1, height = h1, width = Some w1,
                              xOffset = Some (0 + w1 * of_nat 0 + 3 * of_nat (0 + 1))\<rparr>\<rparr>)"
    "overlappingCount (meta st' (events nested ! ([1, 2] ! 0))) = Some (length [1::nat, 2])"
    "groupNumber (meta st' (events nested ! ([1, 2] ! 0))) = Some (0 + 1)"
    "inj_on (\<lambda>x. events nested ! x) (set [1, 2]) \<longrightarrow>
       groupStart (meta st' (events nested ! ([1, 2] ! 0))) = Some (0 = (0::nat))
       \<and> groupEnd (meta st' (events nested ! ([1, 2] ! 0))) = Some (0 = length [1::nat, 2] - 1)"
    by blast
  from all [OF l1] obtain t2 h2 w2 where m2:
    "w2 = (100 - 3 * of_nat 0) / of_nat (length [1::nat, 2]) - 3 / of_nat (length [1::nat, 2])"
    "js_nth (styledEvents st') ([1, 2] ! 1)
       = Some (Some \<lparr>event = Some (events nested ! ([1, 2] ! 1)),
                     style = \<lparr>top' = t2, height = h2, width = Some w2,
                              xOffset = Some (0 + w2 * of_nat 1 + 3 * of_nat (0 + 1))\<rparr>\<rparr>)"
    "overlappingCount (meta st' (events nested ! ([1, 2] ! 1))) = Some (length [1::nat, 2])"
    "groupNumber (meta st' (events nested ! ([1, 2] ! 1))) = Some (0 + 1)"
    "inj_on (\<lambda>x. events nested ! x) (set [1, 2]) \<longrightarrow>
       groupStart (meta st' (events nested ! ([1, 2] ! 1))) = Some (1 = (0::nat))
       \<and> groupEnd (meta st' (events nested ! ([1, 2] ! 1))) = Some (1 = length [1::nat, 2] - 1)"
    by blast
  have w: "w1 = 97 / 2" "w2 = 97 / 2"
    using m1(1) m2(1) by simp_all
  have e1: "js_nth (styledEvents st') 1
            = Some (Some \<lparr>event = Some (1, clock 10 0, clock 10 30),
                          style = \<lparr>top' = t1, height = h1, width = Some (97 / 2), xOffset = Some 3\<rparr>\<rparr>)"
    using m1(2) by (simp add: w ev)
  have e2: "js_nth (styledEvents st') 2
            = Some (Some \<lparr>event = Some (2, clock 10 10, clock 10 30),
                          style = \<lparr>top' = t2, height = h2, width = Some (97 / 2), xOffset = Some (103 / 2)\<rparr>\<rparr>)"
    using m2(2) by (simp add: w ev)
  have md1: "overlappingCount (meta st' (1, clock 10 0, clock 10 30)) = Some 2"
    "groupNumber (meta st' (1, clock 10 0, clock 10 30)) = Some 1"
    "groupStart (meta st' (1, clock 10 0, clock 10 30)) = Some True"
    "groupEnd (meta st' (1, clock 10 0, clock 10 30)) = Some False"
    using m1(3,4) m1(5) [rule_format, OF inj] by (simp_all add: ev)
  have md2: "overlappingCount (meta st' (2, clock 10 10, clock 10 30)) = Some 2"
    "groupNumber (meta st' (2, clock 10 10, clock 10 30)) = Some 1"
    "groupStart (meta st' (2, clock 10 10, clock 10 30)) = Some False"
    "groupEnd (meta st' (2, clock 10 10, clock 10 30)) = Some True"
    using m2(3,4) m2(5) [rule_format, OF inj] by (simp_all add: ev)
  have l: "(1::nat) < length (events nested)" "(2::nat) < length (events nested)"
    by (simp_all add: ev)
  from par dist notin l st' e1 e2 md1 md2 show ?thesis
    by blast
qed

text \<open>
  Claim C9, for events with dates. When the window start and every start and end date of
  the events are present (not \<open>null\<close>), two calls of \<open>getStyledEvents\<close> on inputs
  whose events have the same start and end dates position by position (with the same window
  and step) return the same styles, whatever objects the events are, whatever metadata
  they carry and whatever the clock shows at either call; in particular a second call on
  the events sorted and annotated by a first call returns the styles of the first.
\<close>

theorem styles_deterministic:
  fixes dm :: "'d dateMath" and a :: "('e, 'd) helperArgs" and b :: "('f, 'd) helperArgs"
  assumes "sameDates a b" and "datesPresent dm a"
  shows "\<exists>out out'. getStyledEvents (dm\<lparr>newDate := c\<rparr>) a m = Inr out
      \<and> getStyledEvents (dm\<lparr>newDate := c'\<rparr>) b m' = Inr out'
      \<and> map (map_option style) (returned out) = map (map_option style) (returned out')
      \<and> (\<exists>out2. getStyledEvents (dm\<lparr>newDate := c''\<rparr>) (a\<lparr>events := eventsAfter out\<rparr>) (metaAfter out) = Inr out2
           \<and> map (map_option style) (returned out2) = map (map_option style) (returned out))"
proof -
  from getStyledEvents_total [of "dm\<lparr>newDate := c\<rparr>" a m] obtain out where
    out: "getStyledEvents (dm\<lparr>newDate := c\<rparr>) a m = Inr out" and ev: "eventsAfter out = sort' dm a"
    unfolding sort'_clock by blast
  from getStyledEvents_total [of "dm\<lparr>newDate := c'\<rparr>" b m'] obtain out' where
    out': "getStyledEvents (dm\<lparr>newDate := c'\<rparr>) b m' = Inr out'"
    by blast
  define a2 where "a2 = a\<lparr>events := eventsAfter out\<rparr>"
  from getStyledEvents_total [of "dm\<lparr>newDate := c''\<rparr>" a2 "metaAfter out"] obtain out2 where
    out2: "getStyledEvents (dm\<lparr>newDate := c''\<rparr>) a2 (metaAfter out) = Inr out2"
    by blast
  have first: "map (map_option style) (returned out) = map (map_option style) (returned out')"
    using assms out out' by (rule sameDates_returned)
  have "sort' dm a2 = sort' dm a"
    unfolding a2_def ev by (rule sort'_idem)
  then have h2: "a2\<lparr>events := sort' dm a2\<rparr> = a\<lparr>events := sort' dm a\<rparr>"
    by (simp add: a2_def)
  from getStyledEvents_Inr [OF out] obtain s where
    s: "layout_loop (dm\<lparr>newDate := c\<rparr>) (a\<lparr>events := sort' dm a\<rparr>) 0 \<lparr>meta = m, styledEvents = []\<rparr> = Inr s"
      "returned out = styledEvents s"
    unfolding sort'_clock by blast
  from getStyledEvents_Inr [OF out2] obtain t where
    t: "layout_loop (dm\<lparr>newDate := c''\<rparr>) (a\<lparr>events := sort' dm a\<rparr>) 0 \<lparr>meta = metaAfter out, styledEvents = []\<rparr> = Inr t"
      "returned out2 = styledEvents t"
    unfolding sort'_clock h2 by blast
  have refl: "sameDates (a\<lparr>events := sort' dm a\<rparr>) (a\<lparr>events := sort' dm a\<rparr>)"
    by (simp add: sameDates_def)
  have "sameStyles \<lparr>meta = metaAfter out, styledEvents = []\<rparr> \<lparr>meta = m, styledEvents = []\<rparr>"
    by (simp add: sameStyles_def)
  from sameStyles_layout_loop [OF sameDates_sameSlots [OF refl datesPresent_sorted [OF assms(2)]] this t(1) s(1)]
    s(2) t(2)
  have second: "map (map_option style) (returned out2) = map (map_option style) (returned out)"
    by (simp add: sameStyles_def)
  from out out' first out2 second show ?thesis
    unfolding a2_def by blast
qed

theorem styles_deterministic_witness:
  "sameDates sameStart sameStartCopy \<and> datesPresent utc sameStart
   \<and> (\<exists>out out' out2.
        getStyledEvents (utc\<lparr>newDate := clock 9 0\<rparr>) sameStart noMeta = Inr out
        \<and> getStyledEvents (utc\<lparr>newDate := clock 12 0\<rparr>) sameStartCopy annotated = Inr out'
        \<and> map (map_option style) (returned out) = map (map_option style) (returned out')
        \<and> getStyledEvents (utc\<lparr>newDate := clock 15 0\<rparr>) (sameStart\<lparr>events := eventsAfter out\<rparr>) (metaAfter out)
            = Inr out2
        \<and> map (map_option style) (returned out2) = map (map_option style) (returned out))"
proof -
  have sd: "sameDates sameStart sameStartCopy"
    by (simp add: sameDates_def datesOf_def sameStart_def sameStartCopy_def day_sel)
  have dp: "datesPresent utc sameStart"
    by (simp add: datesPresent_def sameStart_def day_sel utc_def clock_def)
  from styles_deterministic [OF sd dp, of "clock 9 0" noMeta "clock 12 0" annotated "clock 15 0"] sd dp
  show ?thesis
    by blast
qed

text \<open>
  The claim as it was stated, for every input, fails: an event whose start date is
  \<open>null\<close> is placed by the clock. Laid out at 09:00 the event without start that ends
  at 10:00 begins at \<open>top = 37.5\<close>; the same input laid out at 12:00 begins at
  \<open>top = 50\<close>.
\<close>

theorem styles_follow_clock:
  "sameDates noStart noStart
   \<and> map_sum id returned (getStyledEvents (utc\<lparr>newDate := clock 9 0\<rparr>) noStart noMeta)
       = Inr [Some \<lparr>event = Some (0, None, clock 10 0),
                     style = \<lparr>top' = Some (75 / 2), height = Some (25 / 6), width = Some 100, xOffset = Some 0\<rparr>\<rparr>]
   \<and> map_sum id returned (getStyledEvents (utc\<lparr>newDate := clock 12 0\<rparr>) noStart noMeta)
       = Inr [Some \<lparr>event = Some (0, None, clock 10 0),
                     style = \<lparr>top' = Some 50, height = Some (25 / 12), width = Some 100, xOffset = Some 0\<rparr>\<rparr>]"
  by (simp add: sameDates_def noStart_def run_simps clock_slot_at clock_slot_null)

text \<open>
  Claim C10. In the child group phase the resolved parent index is the anchor or a member
  of the anchor's sibling run, all of which the top level phase of the same iteration has
  styled, so \<open>styledEvents[parentIdx]\<close> is defined; past the end of the run the sibling
  index reads \<open>undefined\<close>, for which \<open>isChild\<close> is false, so the walk stops there;
  and \<open>getStyledEvents\<close> never throws.
\<close>

theorem parent_is_styled:
  fixes dm :: "'d dateMath" and a :: "('e, 'd) helperArgs" and st :: "'e layout"
  assumes idx: "idx < length (events a)"
  shows "\<exists>st1. forEach (setTopLevelStyle dm a (getSiblings dm idx a)) (idx # getSiblings dm idx a) st = Inr st1
     \<and> (\<forall>group0. \<exists>p parent.
            reparent dm (getSiblings dm idx a) group0 (Some idx) 0 a = Some p
            \<and> p \<in> set (idx # getSiblings dm idx a)
            \<and> js_index (styledEvents st1) (Some p) = Some (Some parent))
     \<and> (\<forall>k c. length (getSiblings dm idx a) \<le> k \<longrightarrow>
            js_nth (getSiblings dm idx a) k = None
            \<and> \<not> isChild dm (js_nth (getSiblings dm idx a) k) c a)
     \<and> (\<exists>out. getStyledEvents dm a m = Inr out)"
proof -
  define sibs where "sibs = getSiblings dm idx a"
  from topLevel_styles [OF idx, of dm st] obtain st1 where
    st1: "forEach (setTopLevelStyle dm a sibs) (idx # sibs) st = Inr st1"
    and styled: "\<forall>k < Suc (length sibs). \<exists>t h.
          js_nth (styledEvents st1) ((idx # sibs) ! k)
            = Some (Some \<lparr>event = Some (events a ! ((idx # sibs) ! k)),
                          style = \<lparr>top' = t, height = h, width = Some (100 / of_nat (Suc (length sibs))),
                                   xOffset = Some (of_nat k * (100 / of_nat (Suc (length sibs))))\<rparr>\<rparr>)
          \<and> (2 \<le> Suc (length sibs) \<longrightarrow>
               overlappingCount (meta st1 (events a ! ((idx # sibs) ! k))) = Some (Suc (length sibs)))"
    unfolding sibs_def by blast
  have parent: "\<exists>p parent. reparent dm sibs group0 (Some idx) 0 a = Some p
            \<and> p \<in> set (idx # sibs)
            \<and> js_index (styledEvents st1) (Some p) = Some (Some parent)" for group0
  proof -
    from reparent_range [of dm sibs group0 "Some idx" 0 a] obtain p where
      p: "reparent dm sibs group0 (Some idx) 0 a = Some p" "p \<in> set (idx # sibs)"
      by auto
    from p(2) obtain k where k: "k < length (idx # sibs)" "(idx # sibs) ! k = p"
      unfolding in_set_conv_nth by blast
    from k(1) have "k < Suc (length sibs)" by simp
    with styled obtain t h where
      "js_nth (styledEvents st1) ((idx # sibs) ! k)
            = Some (Some \<lparr>event = Some (events a ! ((idx # sibs) ! k)),
                          style = \<lparr>top' = t, height = h, width = Some (100 / of_nat (Suc (length sibs))),
                                   xOffset = Some (of_nat k * (100 / of_nat (Suc (length sibs))))\<rparr>\<rparr>)"
      by blast
    with k(2) have "\<exists>parent. js_index (styledEvents st1) (Some p) = Some (Some parent)"
      by (simp add: js_index_def)
    with p show ?thesis by blast
  qed
  have stop: "js_nth sibs k = None \<and> \<not> isChild dm (js_nth sibs k) c a" if "length sibs \<le> k" for k c
    using that by (simp add: js_nth_def isChild_undefined)
  from getStyledEvents_total [of dm a m] have "\<exists>out. getStyledEvents dm a m = Inr out"
    by blast
  with st1 parent stop show ?thesis
    unfolding sibs_def by blast
qed

theorem parent_is_styled_witness:
  "(0::nat) < length (events shortSibling)
   \<and> getSiblings utc 0 shortSibling = [1, 2]
   \<and> (\<exists>st1 parent out.
        forEach (setTopLevelStyle utc shortSibling [1, 2]) [0, 1, 2] \<lparr>meta = noMeta, styledEvents = []\<rparr> = Inr st1
        \<and> reparent utc [1, 2] (Some 3) (Some 0) 0 shortSibling = Some 0
        \<and> js_index (styledEvents st1) (Some 0) = Some (Some parent)
        \<and> js_nth [1::nat, 2] 2 = None
        \<and> \<not> isChild utc (js_nth [1, 2] 2) (Some 3) shortSibling
        \<and> getStyledEvents utc shortSibling noMeta = Inr out)"
proof -
  have l: "(0::nat) < length (events shortSibling)"
    by (simp add: shortSibling_slots)
  have sib: "getSiblings utc 0 shortSibling = [1, 2]"
    by (simp add: getSiblings_def getSiblings_loop.simps isSibling_eval startSlot_def shortSibling_def
        day_sel clock_slot)
  have rp: "reparent utc [1, 2] (Some 3) (Some 0) 0 shortSibling = Some 0"
    by (simp add: reparent.simps js_nth_def isChild_eval startSlot_def endSlot_def shortSibling_def
        day_sel clock_slot)
  from parent_is_styled [OF l, of utc "\<lparr>meta = noMeta, styledEvents = []\<rparr>" noMeta]
  obtain st1 out where
    st1: "forEach (setTopLevelStyle utc shortSibling [1, 2]) [0, 1, 2] \<lparr>meta = noMeta, styledEvents = []\<rparr> = Inr st1"
    and par: "\<forall>group0. \<exists>p parent.
            reparent utc [1, 2] group0 (Some 0) 0 shortSibling = Some p
            \<and> p \<in> set [0, 1, 2]
            \<and> js_index (styledEvents st1) (Some p) = Some (Some parent)"
    and stop: "\<forall>k c. length [1::nat, 2] \<le> k \<longrightarrow>
            js_nth [1::nat, 2] k = None \<and> \<not> isChild utc (js_nth [1, 2] k) c shortSibling"
    and out: "getStyledEvents utc shortSibling noMeta = Inr out"
    unfolding sib by blast
  from par [rule_format, of "Some 3"] rp obtain parent where
    "js_index (styledEvents st1) (Some 0) = Some (Some parent)"
    by auto
  moreover have "length [1::nat, 2] \<le> 2"
    by simp
  from stop [rule_format, OF this, of "Some 3"]
  have "js_nth [1::nat, 2] 2 = None \<and> \<not> isChild utc (js_nth [1, 2] 2) (Some 3) shortSibling" .
  ultimately show ?thesis
    using l sib st1 rp out by blast
qed

end
